theory Spec2Isabelle
  imports Complex_Main "HOL-Library.Monad_Syntax" "HOL-Library.Code_Target_Nat"
begin

section \<open>Text, characters and the Python builtins the program calls\<close>

text \<open>
  A Python \<open>str\<close> is modelled as a \<open>string\<close> whose characters are the code points
  U+0000 to U+00FF, one \<open>char\<close> each; \<open>of_char\<close> gives the code point. The character
  classes below are Python's Unicode classes restricted to that range.
\<close>

definition code_point :: "char \<Rightarrow> nat" where
  "code_point c = of_char c"

definition is_digit :: "char \<Rightarrow> bool" where
  \<comment> \<open>the class \<open>\d\<close> of \<open>re\<close>: the decimal digits\<close>
  "is_digit c = (48 \<le> code_point c \<and> code_point c \<le> 57)"

definition is_upper :: "char \<Rightarrow> bool" where
  \<comment> \<open>the class \<open>[A-Z]\<close>\<close>
  "is_upper c = (65 \<le> code_point c \<and> code_point c \<le> 90)"

definition is_lower :: "char \<Rightarrow> bool" where
  \<comment> \<open>the class \<open>[a-z]\<close>\<close>
  "is_lower c = (97 \<le> code_point c \<and> code_point c \<le> 122)"

definition is_letter :: "char \<Rightarrow> bool" where
  \<comment> \<open>the class \<open>[A-Za-z]\<close>\<close>
  "is_letter c = (is_upper c \<or> is_lower c)"

definition is_space :: "char \<Rightarrow> bool" where
  \<comment> \<open>\<open>str.isspace\<close>, the class \<open>\s\<close>, and what \<open>strip\<close> and \<open>split\<close> remove\<close>
  "is_space c = (let n = code_point c in
     (9 \<le> n \<and> n \<le> 13) \<or> (28 \<le> n \<and> n \<le> 32) \<or> n = 133 \<or> n = 160)"

definition is_word :: "char \<Rightarrow> bool" where
  \<comment> \<open>the class \<open>\w\<close>: alphanumeric characters and the underscore\<close>
  "is_word c = (let n = code_point c in
     is_digit c \<or> is_upper c \<or> is_lower c \<or> n = 95 \<or>
     n = 170 \<or> n = 178 \<or> n = 179 \<or> n = 181 \<or> n = 185 \<or> n = 186 \<or>
     n = 188 \<or> n = 189 \<or> n = 190 \<or>
     (192 \<le> n \<and> n \<le> 214) \<or> (216 \<le> n \<and> n \<le> 246) \<or> 248 \<le> n)"

definition is_linebreak :: "char \<Rightarrow> bool" where
  \<comment> \<open>the line boundaries of \<open>str.splitlines\<close>\<close>
  "is_linebreak c = (let n = code_point c in
     (10 \<le> n \<and> n \<le> 13) \<or> (28 \<le> n \<and> n \<le> 30) \<or> n = 133)"

definition strip :: "string \<Rightarrow> string" where
  \<comment> \<open>\<open>s.strip()\<close>\<close>
  "strip s = rev (dropWhile is_space (rev (dropWhile is_space s)))"

function split_ws :: "string \<Rightarrow> string list" where
  \<comment> \<open>\<open>s.split()\<close>: the maximal runs of characters that are not whitespace\<close>
  "split_ws s =
     (let t = dropWhile is_space s in
      if t = [] then []
      else takeWhile (\<lambda>c. \<not> is_space c) t # split_ws (dropWhile (\<lambda>c. \<not> is_space c) t))"
  by pat_completeness auto
termination
proof (relation "measure length")
  show "wf (measure length)" by simp
next
  fix s t :: string
  assume t: "t = dropWhile is_space s" and ne: "t \<noteq> []"
  from ne obtain c cs where tc: "t = c # cs" by (cases t) auto
  from t tc have "dropWhile is_space s = c # cs" by simp
  then have "\<not> is_space c" by (simp add: dropWhile_eq_Cons_conv)
  then have "length (dropWhile (\<lambda>c. \<not> is_space c) t) \<le> length cs"
    using tc by (simp add: length_dropWhile_le)
  moreover have "length t \<le> length s" using t by (simp add: length_dropWhile_le)
  ultimately show "(dropWhile (\<lambda>c. \<not> is_space c) t, s) \<in> measure length"
    using tc by simp
qed

declare split_ws.simps [simp del]

fun join_with :: "string \<Rightarrow> string list \<Rightarrow> string" where
  \<comment> \<open>\<open>sep.join(xs)\<close>\<close>
  "join_with sep [] = []"
| "join_with sep [x] = x"
| "join_with sep (x # y # ys) = x @ sep @ join_with sep (y # ys)"

function splitlines :: "string \<Rightarrow> string list" where
  \<comment> \<open>\<open>s.splitlines()\<close>: the line breaks are dropped, CR LF counts once, and a final
      line break opens no further line\<close>
  "splitlines s =
     (if s = [] then []
      else takeWhile (\<lambda>c. \<not> is_linebreak c) s #
        (case dropWhile (\<lambda>c. \<not> is_linebreak c) s of
           [] \<Rightarrow> []
         | b # r \<Rightarrow>
             (if b = CHR 0x0D \<and> r \<noteq> [] \<and> hd r = CHR 0x0A then splitlines (tl r)
              else splitlines r)))"
  by pat_completeness auto
termination
proof (relation "measure length")
  show "wf (measure length)" by simp
next
  fix s :: string and b r
  assume "dropWhile (\<lambda>c. \<not> is_linebreak c) s = b # r"
  then have "Suc (length r) \<le> length s"
    using length_dropWhile_le [of "\<lambda>c. \<not> is_linebreak c" s] by simp
  then show "(tl r, s) \<in> measure length" by simp
next
  fix s :: string and b r
  assume "dropWhile (\<lambda>c. \<not> is_linebreak c) s = b # r"
  then have "Suc (length r) \<le> length s"
    using length_dropWhile_le [of "\<lambda>c. \<not> is_linebreak c" s] by simp
  then show "(r, s) \<in> measure length" by simp
qed

declare splitlines.simps [simp del]

subsection \<open>\<open>int(s)\<close> and \<open>float(s)\<close>\<close>

definition digit_val :: "char \<Rightarrow> nat" where
  "digit_val c = code_point c - 48"

definition nat_of_digits :: "string \<Rightarrow> nat" where
  \<comment> \<open>the value of a string of decimal digits, most significant first\<close>
  "nat_of_digits ds = foldl (\<lambda>a c. 10 * a + digit_val c) 0 ds"

fun underscores_ok :: "char \<Rightarrow> string \<Rightarrow> bool" where
  \<comment> \<open>every underscore stands between two digits; the first argument is the
      character before (NUL at the start)\<close>
  "underscores_ok p [] = (p \<noteq> CHR ''_'')"
| "underscores_ok p (c # cs) =
     ((if c = CHR ''_'' then is_digit p else (p = CHR ''_'' \<longrightarrow> is_digit c))
      \<and> underscores_ok c cs)"

definition drop_underscores :: "string \<Rightarrow> string" where
  "drop_underscores s = filter (\<lambda>c. c \<noteq> CHR ''_'') s"

definition split_sign :: "string \<Rightarrow> bool \<times> string" where
  \<comment> \<open>an optional sign; the flag says negative\<close>
  "split_sign s =
     (case s of
        c # cs \<Rightarrow> if c = CHR ''-'' then (True, cs) else if c = CHR ''+'' then (False, cs)
                  else (False, s)
      | [] \<Rightarrow> (False, s))"

definition is_numeric_space :: "char \<Rightarrow> bool" where
  \<comment> \<open>the whitespace that \<open>int\<close> and \<open>float\<close> skip around a number: the whitespace
      characters apart from the separators U+001C to U+001F\<close>
  "is_numeric_space c = (let n = code_point c in
     (9 \<le> n \<and> n \<le> 13) \<or> n = 32 \<or> n = 133 \<or> n = 160)"

definition numeric_strip :: "string \<Rightarrow> string" where
  "numeric_strip s = rev (dropWhile is_numeric_space (rev (dropWhile is_numeric_space s)))"

definition int_max_str_digits :: nat where
  \<comment> \<open>the interpreter's default limit on the digits of a decimal integer text\<close>
  "int_max_str_digits = 4300"

definition py_int :: "string \<Rightarrow> int option" where
  \<comment> \<open>\<open>int(s)\<close> in base 10: surrounding whitespace, an optional sign, digits with single
      underscores between them, at most \<open>int_max_str_digits\<close> digits. \<open>None\<close> is the
      \<open>ValueError\<close>.\<close>
  "py_int s =
     (let (neg, body) = split_sign (numeric_strip s) in
      if body \<noteq> [] \<and> underscores_ok (CHR 0x00) body
         \<and> list_all is_digit (drop_underscores body)
         \<and> length (drop_underscores body) \<le> int_max_str_digits
      then Some ((if neg then -1 else 1) * int (nat_of_digits (drop_underscores body)))
      else None)"

datatype pyfloat = Finite rat | Infinity bool | NaN

text \<open>
  A float is a binary64: \<open>Finite q\<close> carries its exact value, and \<open>Infinity True\<close> is
  the negative infinity. \<open>float\<close> rounds the exact value of a decimal text to the nearest
  binary64, ties to the even significand; a value that rounds to \<open>2 ^ 1024\<close> or more
  becomes an infinity, and one below half the least subnormal becomes zero. The sign of
  a zero is not kept: \<open>-0.0\<close> and \<open>0.0\<close> compare equal in Python.
\<close>

function bit_length :: "int \<Rightarrow> int" where
  \<comment> \<open>the number of binary digits of a positive \<open>n\<close>\<close>
  "bit_length n = (if n \<le> 0 then 0 else 1 + bit_length (n div 2))"
  by auto
termination
  by (relation "measure nat") auto

declare bit_length.simps [simp del]

definition pow2 :: "int \<Rightarrow> rat" where
  "pow2 e = (if 0 \<le> e then 2 ^ nat e else 1 / 2 ^ nat (- e))"

definition binary_exponent :: "rat \<Rightarrow> int" where
  \<comment> \<open>for \<open>0 < a\<close>, the \<open>k\<close> with \<open>2 ^ k \<le> a < 2 ^ (k + 1)\<close>\<close>
  "binary_exponent a =
     (let (n, d) = quotient_of a;
          k = bit_length n - bit_length d
      in if pow2 k \<le> a then k else k - 1)"

definition round_half_even :: "rat \<Rightarrow> int" where
  "round_half_even q =
     (let f = \<lfloor>q\<rfloor>; d = q - of_int f
      in if d < 1 / 2 \<or> (d = 1 / 2 \<and> even f) then f else f + 1)"

definition binary64 :: "rat \<Rightarrow> pyfloat" where
  \<comment> \<open>the binary64 nearest to \<open>q\<close>: a significand of 53 bits, the exponent of the last
      bit not below \<open>-1074\<close>; a rounded value of exponent 1024 or more, that is
      \<open>2 ^ 1024\<close> or more, is an infinity\<close>
  "binary64 q =
     (if q = 0 then Finite 0
      else
        (let a = \<bar>q\<bar>;
             e = max (binary_exponent a - 52) (- 1074);
             v = of_int (round_half_even (a / pow2 e)) * pow2 e
         in if 1024 \<le> binary_exponent v then Infinity (q < 0)
            else Finite (if q < 0 then - v else v)))"

definition lower_ascii :: "char \<Rightarrow> char" where
  "lower_ascii c = (if is_upper c then char_of (code_point c + 32) else c)"

definition parse_decimal :: "string \<Rightarrow> rat option" where
  \<comment> \<open>the exact value of a decimal text: digits, an optional point and more digits (a
      digit on one side at least), an optional exponent \<open>e\<close> or \<open>E\<close> with optional sign
      and digits\<close>
  "parse_decimal s =
     (let ip = takeWhile is_digit s;
          r1 = dropWhile is_digit s;
          has_point = (r1 \<noteq> [] \<and> hd r1 = CHR ''.'');
          r2 = (if has_point then tl r1 else r1);
          fp = (if has_point then takeWhile is_digit r2 else []);
          r3 = (if has_point then dropWhile is_digit r2 else r2);
          mant = of_nat (nat_of_digits (ip @ fp)) / (10 ^ length fp)
      in if ip = [] \<and> fp = [] then None
         else if r3 = [] then Some mant
         else if hd r3 = CHR ''e'' \<or> hd r3 = CHR ''E'' then
           (let (eneg, ds) = split_sign (tl r3) in
            if ds \<noteq> [] \<and> list_all is_digit ds
            then Some (if eneg then mant / (10 ^ nat_of_digits ds)
                       else mant * (10 ^ nat_of_digits ds))
            else None)
         else None)"

definition py_float :: "string \<Rightarrow> pyfloat option" where
  \<comment> \<open>\<open>float(s)\<close>: surrounding whitespace, an optional sign, then \<open>inf\<close>, \<open>infinity\<close> or
      \<open>nan\<close> in any case, or a decimal number with single underscores between digits,
      rounded to a binary64. \<open>None\<close> is the \<open>ValueError\<close>.\<close>
  "py_float s =
     (let t = numeric_strip s in
      if \<not> underscores_ok (CHR 0x00) t then None
      else
        (let (neg, body) = split_sign (drop_underscores t);
             low = map lower_ascii body
         in if CHR ''_'' \<notin> set t \<and> (low = ''inf'' \<or> low = ''infinity'') then Some (Infinity neg)
            else if CHR ''_'' \<notin> set t \<and> low = ''nan'' then Some NaN
            else map_option (\<lambda>q. binary64 (if neg then - q else q)) (parse_decimal body)))"


datatype py_error = ValueError | IndexError | AttributeError | CsvError

definition py_index :: "'a list \<Rightarrow> int \<Rightarrow> 'a option" where
  \<comment> \<open>\<open>xs[i]\<close>: a negative index counts from the end; \<open>None\<close> is the \<open>IndexError\<close>\<close>
  "py_index xs i =
     (let n = int (length xs); j = (if i < 0 then n + i else i)
      in if 0 \<le> j \<and> j < n then Some (xs ! nat j) else None)"

definition py_slice :: "'a list \<Rightarrow> int \<Rightarrow> int \<Rightarrow> 'a list" where
  \<comment> \<open>\<open>xs[i:j]\<close>: negative bounds count from the end, and both are clipped to the list\<close>
  "py_slice xs i j =
     (let n = int (length xs);
          lo = (if i < 0 then max (n + i) 0 else min i n);
          hi = (if j < 0 then max (n + j) 0 else min j n)
      in take (nat hi - nat lo) (drop (nat lo) xs))"

section \<open>The record\<close>

record CourseRecord =
  sl_no :: int
  course_code :: string
  course_title :: string
  course_type :: string
  credits :: pyfloat
  grade :: string
  exam_month :: string
  result_declared_on :: string
  course_option :: string
  course_distribution :: string

section \<open>The PDF path: \<open>normalize_raw_text\<close>, \<open>clean_line\<close>, \<open>parse_course_line\<close>,
  \<open>parse_grade_history\<close>\<close>

definition code_at :: "string \<Rightarrow> bool" where
  \<comment> \<open>\<open>[A-Z]{3}\d{4}\<close> matches at the start of the text\<close>
  "code_at s = (7 \<le> length s \<and> list_all is_upper (take 3 s)
                 \<and> list_all is_digit (take 4 (drop 3 s)))"

definition word_boundary :: "char option \<Rightarrow> char option \<Rightarrow> bool" where
  \<comment> \<open>\<open>\b\<close> between the character before and the character after (\<open>None\<close> at an end of
      the text): exactly one of the two is a word character\<close>
  "word_boundary p n =
     ((case p of None \<Rightarrow> False | Some c \<Rightarrow> is_word c)
      \<noteq> (case n of None \<Rightarrow> False | Some c \<Rightarrow> is_word c))"

fun sub_slno_code :: "char option \<Rightarrow> string \<Rightarrow> string" where
  \<comment> \<open>\<open>re.sub(r"(\b\d{1,2})([A-Z]{3}\d{4})", r"\1 \2", text)\<close>, scanning from the left; the
      first argument is the character before the scanning position. Two digits are
      tried before one, and the scan resumes behind a match.\<close>
  "sub_slno_code p [] = []"
| "sub_slno_code p (c # cs) =
     (if word_boundary p (Some c) \<and> is_digit c \<and> cs \<noteq> [] \<and> is_digit (hd cs)
         \<and> code_at (tl cs)
      then c # hd cs # CHR '' '' # take 7 (tl cs) @ sub_slno_code (Some (cs ! 7)) (drop 8 cs)
      else if word_boundary p (Some c) \<and> is_digit c \<and> code_at cs
      then c # CHR '' '' # take 7 cs @ sub_slno_code (Some (cs ! 6)) (drop 7 cs)
      else c # sub_slno_code (Some c) cs)"

fun sub_code_title :: "string \<Rightarrow> string" where
  \<comment> \<open>\<open>re.sub(r"([A-Z]{3}\d{4})([A-Za-z])", r"\1 \2", text)\<close>\<close>
  "sub_code_title [] = []"
| "sub_code_title (c # cs) =
     (if code_at (c # cs) \<and> 8 \<le> length (c # cs) \<and> is_letter (cs ! 6)
      then take 7 (c # cs) @ CHR '' '' # cs ! 6 # sub_code_title (drop 7 cs)
      else c # sub_code_title cs)"

definition normalize_raw_text :: "string \<Rightarrow> string" where
  "normalize_raw_text text = sub_code_title (sub_slno_code None text)"

definition footer_marker :: string where
  "footer_marker = ''UNOFFICIALProvisional Grade History''"

function strip_footer :: "string \<Rightarrow> string" where
  \<comment> \<open>\<open>re.sub(r"UNOFFICIALProvisional Grade History.*", "", line)\<close>: the marker and
      what follows it up to the next line feed are removed\<close>
  "strip_footer [] = []"
| "strip_footer (c # cs) =
     (if take (length footer_marker) (c # cs) = footer_marker
      then strip_footer (dropWhile (\<lambda>x. x \<noteq> CHR 0x0A) (drop (length footer_marker) (c # cs)))
      else c # strip_footer cs)"
  by pat_completeness auto
termination
proof (relation "measure length")
  show "wf (measure length)" by simp
next
  fix c :: char and cs :: string
  have "length (dropWhile (\<lambda>x. x \<noteq> CHR 0x0A) (drop (length footer_marker) (c # cs)))
          \<le> length (drop (length footer_marker) (c # cs))"
    by (rule length_dropWhile_le)
  also have "\<dots> < length (c # cs)" by (simp add: footer_marker_def)
  finally show "(dropWhile (\<lambda>x. x \<noteq> CHR 0x0A) (drop (length footer_marker) (c # cs)), c # cs)
                  \<in> measure length"
    by simp
qed simp

definition clean_line :: "string \<Rightarrow> string" where
  "clean_line line = strip (strip_footer line)"

definition extract_fields :: "int \<Rightarrow> string list \<Rightarrow> CourseRecord option" where
  \<comment> \<open>the second \<open>try\<close> block of \<open>parse_course_line\<close>; \<open>None\<close> is any exception raised
      in it (\<open>IndexError\<close> from an index, \<open>ValueError\<close> from \<open>float\<close>)\<close>
  "extract_fields n tokens =
     do {
       code \<leftarrow> py_index tokens 1;
       distribution \<leftarrow> py_index tokens (- 1);
       opt \<leftarrow> py_index tokens (- 2);
       declared \<leftarrow> py_index tokens (- 3);
       month \<leftarrow> py_index tokens (- 4);
       grd \<leftarrow> py_index tokens (- 5);
       credits_token \<leftarrow> py_index tokens (- 6);
       crd \<leftarrow> py_float credits_token;
       typ \<leftarrow> py_index tokens (- 7);
       Some \<lparr> sl_no = n, course_code = code,
              course_title = join_with '' '' (py_slice tokens 2 (- 7)),
              course_type = typ, credits = crd, grade = grd, exam_month = month,
              result_declared_on = declared, course_option = opt,
              course_distribution = distribution \<rparr>
     }"

definition parse_course_line :: "string \<Rightarrow> py_error + CourseRecord option" where
  \<comment> \<open>\<open>Inr None\<close> is the return value \<open>None\<close>; \<open>Inl e\<close> is an exception that leaves the
      function\<close>
  "parse_course_line line =
     (let tokens = split_ws line in
      if length tokens < 10 then Inr None
      else
        (case py_index tokens 0 of
           None \<Rightarrow> Inl IndexError
         | Some t0 \<Rightarrow>
             (case py_int t0 of
                None \<Rightarrow> Inr None
              | Some n \<Rightarrow> Inr (extract_fields n tokens))))"

definition starts_record :: "string \<Rightarrow> bool" where
  \<comment> \<open>\<open>re.match(r"^\d+\s+[A-Z]{3}\d{4}\b", line)\<close>. The three classes are disjoint, so
      the greedy runs of digits and of whitespace are the only way to match.\<close>
  "starts_record line =
     (let ds = takeWhile is_digit line;
          r1 = dropWhile is_digit line;
          ws = takeWhile is_space r1;
          r2 = dropWhile is_space r1
      in ds \<noteq> [] \<and> ws \<noteq> [] \<and> code_at r2
         \<and> word_boundary (Some (r2 ! 6)) (if 7 < length r2 then Some (r2 ! 7) else None))"

definition flush :: "CourseRecord list \<Rightarrow> string \<Rightarrow> py_error + CourseRecord list" where
  \<comment> \<open>\<open>if current_line: rec = parse_course_line(current_line); if rec: records.append(rec)\<close>\<close>
  "flush records current_line =
     (if current_line \<noteq> [] then
        (case parse_course_line current_line of
           Inl e \<Rightarrow> Inl e
         | Inr None \<Rightarrow> Inr records
         | Inr (Some r) \<Rightarrow> Inr (records @ [r]))
      else Inr records)"

fun grade_history_loop ::
  "CourseRecord list \<Rightarrow> string \<Rightarrow> string list \<Rightarrow> py_error + CourseRecord list \<times> string" where
  \<comment> \<open>the \<open>for raw_line in lines\<close> loop over the state \<open>(records, current_line)\<close>\<close>
  "grade_history_loop records current_line [] = Inr (records, current_line)"
| "grade_history_loop records current_line (raw_line # rest) =
     (let line = clean_line raw_line in
      if line = [] then grade_history_loop records current_line rest
      else if starts_record line then
        (case flush records current_line of
           Inl e \<Rightarrow> Inl e
         | Inr records' \<Rightarrow> grade_history_loop records' line rest)
      else if current_line \<noteq> [] then
        grade_history_loop records (current_line @ '' '' @ line) rest
      else grade_history_loop records current_line rest)"

definition parse_grade_history :: "string \<Rightarrow> py_error + CourseRecord list" where
  \<comment> \<open>The argument is the text that \<open>extract_text_from_pdf\<close> returns; reading the PDF
      is outside the model.\<close>
  "parse_grade_history raw_text =
     (let text = normalize_raw_text raw_text;
          lines = splitlines text
      in case grade_history_loop [] [] lines of
           Inl e \<Rightarrow> Inl e
         | Inr (records, current_line) \<Rightarrow> flush records current_line)"


definition anchor_spec :: "string \<Rightarrow> bool" where
  \<comment> \<open>The anchor pattern in the words of the specification: the line begins with one or
      more digits, then whitespace, then a course code of three uppercase letters and
      four digits that ends at a word boundary.\<close>
  "anchor_spec line =
     (\<exists>ds ws code rest.
        line = ds @ ws @ code @ rest
        \<and> ds \<noteq> [] \<and> list_all is_digit ds
        \<and> ws \<noteq> [] \<and> list_all is_space ws
        \<and> length code = 7 \<and> list_all is_upper (take 3 code) \<and> list_all is_digit (drop 3 code)
        \<and> (rest = [] \<or> \<not> is_word (hd rest)))"

section \<open>The CSV path: \<open>download_csv\<close> and \<open>parse_csv\<close>\<close>

subsection \<open>\<open>io.TextIOWrapper\<close> with universal newlines\<close>

fun universal_newlines :: "string \<Rightarrow> string" where
  \<comment> \<open>reading with \<open>newline=None\<close>: CR LF and a lone CR both arrive as LF\<close>
  "universal_newlines [] = []"
| "universal_newlines (c # cs) =
     (if c = CHR 0x0D then
        CHR 0x0A # universal_newlines (if cs \<noteq> [] \<and> hd cs = CHR 0x0A then drop 1 cs else cs)
      else c # universal_newlines cs)"

fun text_lines :: "string \<Rightarrow> string list" where
  \<comment> \<open>the lines a text stream iterates over; each keeps its LF\<close>
  "text_lines [] = []"
| "text_lines (c # cs) =
     (if c = CHR 0x0A then [c] # text_lines cs
      else (case text_lines cs of [] \<Rightarrow> [[c]] | l # ls \<Rightarrow> (c # l) # ls))"

subsection \<open>\<open>csv.reader\<close> in the default (excel) dialect\<close>

datatype parser_state =
  START_RECORD | START_FIELD | IN_FIELD | IN_QUOTED_FIELD | QUOTE_IN_QUOTED_FIELD | EAT_CRNL

record reader =
  state :: parser_state
  field :: string
  row_fields :: "string list"

definition field_limit :: nat where
  \<comment> \<open>\<open>csv.field_size_limit()\<close>\<close>
  "field_limit = 131072"

definition parse_reset :: reader where
  "parse_reset = \<lparr> state = START_RECORD, field = [], row_fields = [] \<rparr>"

definition parse_add_char :: "reader \<Rightarrow> char \<Rightarrow> py_error + reader" where
  "parse_add_char r c =
     (if field_limit \<le> length (field r) then Inl CsvError
      else Inr (r\<lparr> field := field r @ [c] \<rparr>))"

definition parse_save_field :: "reader \<Rightarrow> reader" where
  "parse_save_field r = r\<lparr> row_fields := row_fields r @ [field r], field := [] \<rparr>"

definition is_newline :: "char \<Rightarrow> bool" where
  "is_newline c = (c = CHR 0x0A \<or> c = CHR 0x0D)"

definition end_of_line :: "reader \<Rightarrow> char option \<Rightarrow> reader" where
  \<comment> \<open>a field ends at a line end: the field is saved; the end of the line itself
      (\<open>None\<close>) closes the record, a newline character waits for it\<close>
  "end_of_line r c =
     (parse_save_field r)\<lparr> state := (if c = None then START_RECORD else EAT_CRNL) \<rparr>"

fun start_field :: "reader \<Rightarrow> char option \<Rightarrow> py_error + reader" where
  "start_field r None = Inr (end_of_line r None)"
| "start_field r (Some c) =
     (if is_newline c then Inr (end_of_line r (Some c))
      else if c = CHR 0x22 then Inr (r\<lparr> state := IN_QUOTED_FIELD \<rparr>)
      else if c = CHR '','' then Inr (parse_save_field r)
      else map_sum id (\<lambda>r'. r'\<lparr> state := IN_FIELD \<rparr>) (parse_add_char r c))"

fun parse_process_char :: "reader \<Rightarrow> char option \<Rightarrow> py_error + reader" where
  \<comment> \<open>one step of the reader; \<open>None\<close> is the end of the line that the reader appends to
      every line it is given\<close>
  "parse_process_char r c =
     (case state r of
        START_RECORD \<Rightarrow>
          (case c of
             None \<Rightarrow> Inr r
           | Some x \<Rightarrow>
               if is_newline x then Inr (r\<lparr> state := EAT_CRNL \<rparr>)
               else start_field (r\<lparr> state := START_FIELD \<rparr>) c)
      | START_FIELD \<Rightarrow> start_field r c
      | IN_FIELD \<Rightarrow>
          (case c of
             None \<Rightarrow> Inr (end_of_line r c)
           | Some x \<Rightarrow>
               if is_newline x then Inr (end_of_line r c)
               else if x = CHR '','' then Inr ((parse_save_field r)\<lparr> state := START_FIELD \<rparr>)
               else parse_add_char r x)
      | IN_QUOTED_FIELD \<Rightarrow>
          (case c of
             None \<Rightarrow> Inr r
           | Some x \<Rightarrow>
               if x = CHR 0x22 then Inr (r\<lparr> state := QUOTE_IN_QUOTED_FIELD \<rparr>)
               else parse_add_char r x)
      | QUOTE_IN_QUOTED_FIELD \<Rightarrow>
          (case c of
             None \<Rightarrow> Inr (end_of_line r c)
           | Some x \<Rightarrow>
               if x = CHR 0x22 then
                 map_sum id (\<lambda>r'. r'\<lparr> state := IN_QUOTED_FIELD \<rparr>) (parse_add_char r x)
               else if x = CHR '','' then Inr ((parse_save_field r)\<lparr> state := START_FIELD \<rparr>)
               else if is_newline x then Inr (end_of_line r c)
               else map_sum id (\<lambda>r'. r'\<lparr> state := IN_FIELD \<rparr>) (parse_add_char r x))
      | EAT_CRNL \<Rightarrow>
          (case c of
             None \<Rightarrow> Inr (r\<lparr> state := START_RECORD \<rparr>)
           | Some x \<Rightarrow> if is_newline x then Inr r else Inl CsvError))"

fun feed_chars :: "reader \<Rightarrow> string \<Rightarrow> py_error + reader" where
  "feed_chars r [] = Inr r"
| "feed_chars r (c # cs) =
     (case parse_process_char r (Some c) of Inl e \<Rightarrow> Inl e | Inr r' \<Rightarrow> feed_chars r' cs)"

definition feed_line :: "reader \<Rightarrow> string \<Rightarrow> py_error + reader" where
  \<comment> \<open>the characters of one line, then the end of line\<close>
  "feed_line r line =
     (case feed_chars r line of Inl e \<Rightarrow> Inl e | Inr r' \<Rightarrow> parse_process_char r' None)"

fun csv_rows :: "reader \<Rightarrow> string list \<Rightarrow> (py_error + string list) list" where
  \<comment> \<open>what iterating the reader yields, in order: rows, or an exception, which ends the
      iteration. A row is complete when a line ends in the state \<open>START_RECORD\<close>; at the
      end of the input a field that was begun is still returned.\<close>
  "csv_rows r [] =
     (if field r \<noteq> [] \<or> state r = IN_QUOTED_FIELD then [Inr (row_fields (parse_save_field r))]
      else [])"
| "csv_rows r (line # rest) =
     (case feed_line r line of
        Inl e \<Rightarrow> [Inl e]
      | Inr r' \<Rightarrow>
          if state r' = START_RECORD then Inr (row_fields r') # csv_rows parse_reset rest
          else csv_rows r' rest)"

subsection \<open>\<open>csv.DictReader\<close>\<close>

datatype cell = Str string | NoneCell | Rest "string list"

type_synonym csv_row = "(string option \<times> cell) list"

fun dict_set :: "('k \<times> 'v) list \<Rightarrow> 'k \<Rightarrow> 'v \<Rightarrow> ('k \<times> 'v) list" where
  \<comment> \<open>\<open>d[k] = v\<close> on a dictionary kept in insertion order\<close>
  "dict_set [] k v = [(k, v)]"
| "dict_set ((k', v') # d) k v = (if k' = k then (k, v) # d else (k', v') # dict_set d k v)"

definition dict_get :: "('k \<times> 'v) list \<Rightarrow> 'k \<Rightarrow> 'v option" where
  "dict_get d k = map_of d k"

definition make_row :: "string list \<Rightarrow> string list \<Rightarrow> csv_row" where
  \<comment> \<open>the dictionary \<open>DictReader\<close> builds for one row: \<open>dict(zip(fieldnames, row))\<close>, the
      surplus cells as a list under the key \<open>None\<close>, the missing ones as \<open>None\<close>\<close>
  "make_row fieldnames row =
     (let d = foldl (\<lambda>d (k, v). dict_set d (Some k) (Str v)) [] (zip fieldnames row);
          lf = length fieldnames; lr = length row
      in if lf < lr then dict_set d None (Rest (drop lf row))
         else if lr < lf then foldl (\<lambda>d k. dict_set d (Some k) NoneCell) d (drop lr fieldnames)
         else d)"

fun dict_rows :: "string list \<Rightarrow> (py_error + string list) list \<Rightarrow> (py_error + csv_row) list" where
  \<comment> \<open>the rows after the header: empty rows are passed over\<close>
  "dict_rows fieldnames [] = []"
| "dict_rows fieldnames (Inl e # rest) = [Inl e]"
| "dict_rows fieldnames (Inr row # rest) =
     (if row = [] then dict_rows fieldnames rest
      else Inr (make_row fieldnames row) # dict_rows fieldnames rest)"

definition dict_reader :: "string \<Rightarrow> (py_error + csv_row) list" where
  \<comment> \<open>\<open>csv.DictReader(io.TextIOWrapper(file_obj, encoding="utf-8"))\<close>, iterated; the
      argument is the decoded text of the file. The first row the reader yields is the
      header.\<close>
  "dict_reader text =
     (case csv_rows parse_reset (text_lines (universal_newlines text)) of
        [] \<Rightarrow> []
      | Inl e # rest \<Rightarrow> [Inl e]
      | Inr fieldnames # rest \<Rightarrow> dict_rows fieldnames rest)"

subsection \<open>\<open>parse_csv\<close>\<close>

definition or_empty_strip :: "cell option \<Rightarrow> py_error + string" where
  \<comment> \<open>\<open>(row.get(col) or "").strip()\<close>: a list has no \<open>strip\<close>\<close>
  "or_empty_strip v =
     (case v of
        None \<Rightarrow> Inr []
      | Some NoneCell \<Rightarrow> Inr []
      | Some (Str s) \<Rightarrow> Inr (strip s)
      | Some (Rest xs) \<Rightarrow> if xs = [] then Inr [] else Inl AttributeError)"

fun any_nonblank :: "csv_row \<Rightarrow> string option list \<Rightarrow> py_error + bool" where
  \<comment> \<open>\<open>any((row.get(col) or "").strip() for col in row.keys())\<close>, from the left, stopping
      at the first non-blank value\<close>
  "any_nonblank row [] = Inr False"
| "any_nonblank row (col # cols) =
     (case or_empty_strip (dict_get row col) of
        Inl e \<Rightarrow> Inl e
      | Inr s \<Rightarrow> if s \<noteq> [] then Inr True else any_nonblank row cols)"

definition get_text :: "csv_row \<Rightarrow> string \<Rightarrow> string option" where
  \<comment> \<open>a column read inside the \<open>try\<close> block; \<open>None\<close> is an exception, which the
      \<open>except\<close> clause catches\<close>
  "get_text row col =
     (case or_empty_strip (dict_get row (Some col)) of Inl e \<Rightarrow> None | Inr s \<Rightarrow> Some s)"

definition decode_row :: "csv_row \<Rightarrow> CourseRecord option" where
  \<comment> \<open>the \<open>try\<close> block of \<open>parse_csv\<close>; \<open>None\<close> is a row that is skipped, by \<open>continue\<close>
      or by the \<open>except\<close> clause\<close>
  "decode_row row =
     do {
       sl_no_str \<leftarrow> get_text row ''Sl.No'';
       n \<leftarrow> (if sl_no_str = [] then None else py_int sl_no_str);
       code \<leftarrow> get_text row ''Course Code'';
       title \<leftarrow> get_text row ''Course Title'';
       typ \<leftarrow> get_text row ''Course Type'';
       credits_str \<leftarrow> get_text row ''Credits'';
       crd \<leftarrow> (if credits_str \<noteq> [] then py_float credits_str else Some (Finite 0));
       grd \<leftarrow> get_text row ''Grade'';
       month \<leftarrow> get_text row ''Exam Month'';
       declared \<leftarrow> get_text row ''Result Declared On'';
       opt \<leftarrow> get_text row ''Course Option'';
       distribution \<leftarrow> get_text row ''Course Distribution'';
       Some \<lparr> sl_no = n, course_code = code, course_title = title, course_type = typ,
              credits = crd, grade = grd, exam_month = month, result_declared_on = declared,
              course_option = opt, course_distribution = distribution \<rparr>
     }"

fun parse_csv_loop ::
  "CourseRecord list \<Rightarrow> (py_error + csv_row) list \<Rightarrow> py_error + CourseRecord list" where
  \<comment> \<open>\<open>for row in reader\<close>: an exception of the reader, or of the blank-row test, which
      stands outside the \<open>try\<close> block, leaves the function\<close>
  "parse_csv_loop records [] = Inr records"
| "parse_csv_loop records (Inl e # rest) = Inl e"
| "parse_csv_loop records (Inr row # rest) =
     (case any_nonblank row (map fst row) of
        Inl e \<Rightarrow> Inl e
      | Inr False \<Rightarrow> parse_csv_loop records rest
      | Inr True \<Rightarrow>
          (case decode_row row of
             None \<Rightarrow> parse_csv_loop records rest
           | Some r \<Rightarrow> parse_csv_loop (records @ [r]) rest))"

definition parse_csv :: "string \<Rightarrow> py_error + CourseRecord list" where
  "parse_csv text = parse_csv_loop [] (dict_reader text)"

subsection \<open>\<open>csv.writer\<close> in the default (excel) dialect\<close>

definition needs_quote :: "string \<Rightarrow> bool" where
  \<comment> \<open>minimal quoting: the delimiter, the quote character, or a character of the line
      terminator occurs in the field\<close>
  "needs_quote f =
     list_ex (\<lambda>c. c = CHR '','' \<or> c = CHR 0x22 \<or> c = CHR 0x0D \<or> c = CHR 0x0A) f"

definition escape_quotes :: "string \<Rightarrow> string" where
  \<comment> \<open>the quote character is doubled\<close>
  "escape_quotes f = concat (map (\<lambda>c. if c = CHR 0x22 then [c, c] else [c]) f)"

definition quote_field :: "string \<Rightarrow> string" where
  "quote_field f = CHR 0x22 # escape_quotes f @ [CHR 0x22]"

definition write_field :: "string \<Rightarrow> string" where
  "write_field f = (if needs_quote f then quote_field f else f)"

definition writerow :: "string list \<Rightarrow> string" where
  \<comment> \<open>one record and the line terminator CR LF; a record of one empty field is written
      as a pair of quotes\<close>
  "writerow fs =
     (if fs = [[]] then [CHR 0x22, CHR 0x22] else join_with '','' (map write_field fs))
     @ [CHR 0x0D, CHR 0x0A]"

subsection \<open>\<open>download_csv\<close>\<close>

definition header :: "string list" where
  "header = [''Sl.No'', ''Course Code'', ''Course Title'', ''Course Type'', ''Credits'',
             ''Grade'', ''Exam Month'', ''Result Declared On'', ''Course Option'',
             ''Course Distribution'']"

definition field_order :: "string list" where
  "field_order = [''sl_no'', ''course_code'', ''course_title'', ''course_type'', ''credits'',
                  ''grade'', ''exam_month'', ''result_declared_on'', ''course_option'',
                  ''course_distribution'']"

definition is_field_char :: "char \<Rightarrow> bool" where
  \<comment> \<open>the class \<open>[a-z_]\<close>\<close>
  "is_field_char c = (is_lower c \<or> c = CHR ''_'')"

definition match_key :: "string \<Rightarrow> (string \<times> string) option" where
  \<comment> \<open>\<open>pattern.match(key)\<close> for \<open>row-(\d+)-([a-z_]+)\<close>, matched at the start of the key:
      the two groups\<close>
  "match_key key =
     (if take 4 key = ''row-'' then
        (let ds = takeWhile is_digit (drop 4 key);
             r = dropWhile is_digit (drop 4 key)
         in if ds \<noteq> [] \<and> r \<noteq> [] \<and> hd r = CHR ''-'' \<and> takeWhile is_field_char (tl r) \<noteq> []
            then Some (ds, takeWhile is_field_char (tl r))
            else None)
      else None)"

type_synonym form_row = "(string \<times> string) list"

fun collect_rows ::
  "(int \<times> form_row) list \<Rightarrow> (string \<times> string) list \<Rightarrow> py_error + (int \<times> form_row) list" where
  \<comment> \<open>the loop over \<open>request.form.items()\<close> that fills \<open>rows_data\<close>; a \<open>ValueError\<close> of
      \<open>int\<close> is not caught\<close>
  "collect_rows rows_data [] = Inr rows_data"
| "collect_rows rows_data ((key, val) # rest) =
     (case match_key key of
        None \<Rightarrow> collect_rows rows_data rest
      | Some (ds, fld) \<Rightarrow>
          (case py_int ds of
             None \<Rightarrow> Inl ValueError
           | Some idx \<Rightarrow>
               (let row = (case dict_get rows_data idx of None \<Rightarrow> [] | Some r \<Rightarrow> r)
                in collect_rows (dict_set rows_data idx (dict_set row fld (strip val))) rest)))"

definition row_get :: "form_row \<Rightarrow> string \<Rightarrow> string" where
  \<comment> \<open>\<open>row.get(f, "")\<close>\<close>
  "row_get row f = (case dict_get row f of None \<Rightarrow> [] | Some v \<Rightarrow> v)"

definition write_form_row :: "form_row \<Rightarrow> string" where
  \<comment> \<open>the body of the loop over the sorted indices: a row whose ten fields are all empty
      is skipped\<close>
  "write_form_row row =
     (if list_ex (\<lambda>f. row_get row f \<noteq> []) field_order
      then writerow (map (row_get row) field_order)
      else [])"

definition download_csv :: "(string \<times> string) list \<Rightarrow> py_error + string" where
  \<comment> \<open>The argument is \<open>request.form.items()\<close>; the result is \<open>csv_data\<close>, the body of the
      response.\<close>
  "download_csv items =
     (case collect_rows [] items of
        Inl e \<Rightarrow> Inl e
      | Inr rows_data \<Rightarrow>
          Inr (writerow header @
               concat (map (\<lambda>idx. write_form_row
                                    (case dict_get rows_data idx of None \<Rightarrow> [] | Some r \<Rightarrow> r))
                           (sort (map fst rows_data)))))"

subsection \<open>From records to the form\<close>

definition digit_char :: "nat \<Rightarrow> char" where
  "digit_char d = char_of (48 + d)"

fun str_nat :: "nat \<Rightarrow> string" where
  \<comment> \<open>the decimal digits of a natural number\<close>
  "str_nat n = (if n < 10 then [digit_char n] else str_nat (n div 10) @ [digit_char (n mod 10)])"

declare str_nat.simps [simp del]

definition str_int :: "int \<Rightarrow> string" where
  \<comment> \<open>\<open>str(n)\<close> for an integer\<close>
  "str_int n = (if n < 0 then CHR ''-'' # str_nat (nat (- n)) else str_nat (nat n))"

definition record_texts :: "(pyfloat \<Rightarrow> string) \<Rightarrow> CourseRecord \<Rightarrow> string list" where
  \<comment> \<open>Modelled from the spec: the page template that shows the records as editable form
      fields is not among the sources. The ten fields of a record as text, in the field
      order; the text of the credits is a parameter of the model.\<close>
  "record_texts fmt r =
     [str_int (sl_no r), course_code r, course_title r, course_type r, fmt (credits r),
      grade r, exam_month r, result_declared_on r, course_option r, course_distribution r]"

definition form_of_records ::
  "(pyfloat \<Rightarrow> string) \<Rightarrow> CourseRecord list \<Rightarrow> (string \<times> string) list" where
  \<comment> \<open>Modelled from the spec: the form the page template submits, a mapping from
      (row index, field name) to the field's text, under the keys \<open>row-<index>-<field>\<close>
      that \<open>download_csv\<close> reads; the rows are numbered from 0 in their order.\<close>
  "form_of_records fmt rs =
     concat (map (\<lambda>(i, r). map (\<lambda>(f, v). (''row-'' @ str_nat i @ ''-'' @ f, v))
                                 (zip field_order (record_texts fmt r)))
                 (enumerate 0 rs))"

definition encode :: "(pyfloat \<Rightarrow> string) \<Rightarrow> CourseRecord list \<Rightarrow> py_error + string" where
  "encode fmt rs = download_csv (form_of_records fmt rs)"

definition decode :: "string \<Rightarrow> py_error + CourseRecord list" where
  "decode text = parse_csv text"

section \<open>Where the two substitutions of the normalizer can match\<close>

definition slno_code_at :: "char option \<Rightarrow> string \<Rightarrow> bool" where
  \<comment> \<open>\<open>(\b\d{1,2})([A-Z]{3}\d{4})\<close> matches at the start of the text, the first argument
      being the character before\<close>
  "slno_code_at p s =
     (s \<noteq> [] \<and> word_boundary p (Some (hd s)) \<and> is_digit (hd s)
      \<and> ((tl s \<noteq> [] \<and> is_digit (hd (tl s)) \<and> code_at (tl (tl s))) \<or> code_at (tl s)))"

fun has_slno_code :: "char option \<Rightarrow> string \<Rightarrow> bool" where
  \<comment> \<open>the first pattern matches somewhere in the text\<close>
  "has_slno_code p [] = False"
| "has_slno_code p (c # cs) = (slno_code_at p (c # cs) \<or> has_slno_code (Some c) cs)"

definition code_title_at :: "string \<Rightarrow> bool" where
  \<comment> \<open>\<open>([A-Z]{3}\d{4})([A-Za-z])\<close> matches at the start of the text\<close>
  "code_title_at s = (code_at s \<and> 8 \<le> length s \<and> is_letter (s ! 7))"

fun has_code_title :: "string \<Rightarrow> bool" where
  \<comment> \<open>the second pattern matches somewhere in the text\<close>
  "has_code_title [] = False"
| "has_code_title (c # cs) = (code_title_at (c # cs) \<or> has_code_title cs)"

definition glued_codes_at :: "string \<Rightarrow> bool" where
  \<comment> \<open>a course code, directly followed by a second course code, directly followed by a
      letter: \<open>[A-Z]{3}\d{4}[A-Z]{3}\d{4}[A-Za-z]\<close> at the start of the text\<close>
  "glued_codes_at s = (code_at s \<and> code_title_at (drop 7 s))"

fun has_glued_codes :: "string \<Rightarrow> bool" where
  "has_glued_codes [] = False"
| "has_glued_codes (c # cs) = (glued_codes_at (c # cs) \<or> has_glued_codes cs)"

subsection \<open>Records that survive the round trip\<close>

definition field_ok :: "string \<Rightarrow> bool" where
  \<comment> \<open>a text that \<open>strip\<close> leaves as it is, without a carriage return, and within the
      reader's field limit\<close>
  "field_ok t = (strip t = t \<and> CHR 0x0D \<notin> set t \<and> length t \<le> field_limit)"

definition round_trip_record :: "(pyfloat \<Rightarrow> string) \<Rightarrow> CourseRecord \<Rightarrow> bool" where
  \<comment> \<open>the serial number can be written within the digit limit of \<open>int\<close>; the credits are a
      number whose text reads back as the same number; every text field is \<open>field_ok\<close>\<close>
  "round_trip_record fmt r =
     (\<bar>sl_no r\<bar> < 10 ^ int_max_str_digits
      \<and> credits r \<noteq> NaN \<and> py_float (fmt (credits r)) = Some (credits r)
      \<and> list_all field_ok
           [course_code r, course_title r, course_type r, fmt (credits r), grade r,
            exam_month r, result_declared_on r, course_option r, course_distribution r])"

definition whole_number_text :: "pyfloat \<Rightarrow> string" where
  \<comment> \<open>Modelled from the spec: the page template, which writes the credits into the form,
      is not among the sources. The text of a float that is a whole number, as \<open>str\<close>
      writes it below \<open>1e16\<close>: the integer and \<open>.0\<close>. Other values are not rendered by this
      function (empty text).\<close>
  "whole_number_text c =
     (case c of
        Finite q \<Rightarrow> if of_int \<lfloor>q\<rfloor> = q then str_int \<lfloor>q\<rfloor> @ ''.0'' else []
      | _ \<Rightarrow> [])"

subsection \<open>The written line of a record, and the reader behind a field\<close>

definition row_line :: "string list \<Rightarrow> string" where
  \<comment> \<open>the fields of a record as the writer joins them, without the line terminator\<close>
  "row_line fs = join_with '','' (map write_field fs)"

definition after_field :: "reader \<Rightarrow> string \<Rightarrow> string list \<Rightarrow> bool" where
  \<comment> \<open>the states of the reader when it has read the field \<open>f\<close> behind the fields \<open>d\<close> and
      has not yet seen what follows\<close>
  "after_field r f d =
     ((r = \<lparr> state = START_FIELD, field = [], row_fields = d \<rparr> \<and> f = [])
      \<or> r = \<lparr> state = IN_FIELD, field = f, row_fields = d \<rparr>
      \<or> r = \<lparr> state = QUOTE_IN_QUOTED_FIELD, field = f, row_fields = d \<rparr>)"

definition row_ok :: "string list \<Rightarrow> bool" where
  \<comment> \<open>a record of at least two fields, each without a carriage return and within the
      reader's field limit\<close>
  "row_ok fs = (2 \<le> length fs \<and> (\<forall>f\<in>set fs. CHR 0x0D \<notin> set f \<and> length f \<le> field_limit))"

(*THEOREMS*)

section \<open>Properties of the builtins\<close>

lemma split_ws_Nil: "dropWhile is_space s = [] \<Longrightarrow> split_ws s = []"
  by (subst split_ws.simps) (simp add: Let_def)

lemma split_ws_Cons:
  "dropWhile is_space s \<noteq> [] \<Longrightarrow>
   split_ws s = takeWhile (\<lambda>c. \<not> is_space c) (dropWhile is_space s)
                # split_ws (dropWhile (\<lambda>c. \<not> is_space c) (dropWhile is_space s))"
  by (subst split_ws.simps) (simp add: Let_def)

lemma split_ws_tokens:
  "t \<in> set (split_ws s) \<Longrightarrow> t \<noteq> [] \<and> (\<forall>c\<in>set t. \<not> is_space c)"
proof (induction s rule: split_ws.induct)
  case (1 s)
  show ?case
  proof (cases "dropWhile is_space s = []")
    case True
    with "1.prems" show ?thesis by (simp add: split_ws_Nil)
  next
    case False
    then obtain c cs where tc: "dropWhile is_space s = c # cs"
      by (cases "dropWhile is_space s") auto
    then have nsp: "\<not> is_space c" by (simp add: dropWhile_eq_Cons_conv)
    from "1.prems" have "t \<in> set (takeWhile (\<lambda>c. \<not> is_space c) (dropWhile is_space s)
                # split_ws (dropWhile (\<lambda>c. \<not> is_space c) (dropWhile is_space s)))"
      by (simp only: split_ws_Cons [OF False])
    then have "t = takeWhile (\<lambda>c. \<not> is_space c) (dropWhile is_space s)
       \<or> t \<in> set (split_ws (dropWhile (\<lambda>c. \<not> is_space c) (dropWhile is_space s)))"
      by (simp only: set_simps insert_iff)
    then show ?thesis
    proof
      assume eq: "t = takeWhile (\<lambda>c. \<not> is_space c) (dropWhile is_space s)"
      have "t \<noteq> []" unfolding eq tc using nsp by simp
      moreover have "\<forall>c\<in>set t. \<not> is_space c"
        unfolding eq
      proof
        fix x assume "x \<in> set (takeWhile (\<lambda>c. \<not> is_space c) (dropWhile is_space s))"
        from set_takeWhileD [OF this] show "\<not> is_space x" by simp
      qed
      ultimately show ?thesis by blast
    next
      assume "t \<in> set (split_ws (dropWhile (\<lambda>c. \<not> is_space c) (dropWhile is_space s)))"
      then show ?thesis by (rule "1.IH" [OF refl False])
    qed
  qed
qed

lemma py_index_neg:
  "0 < k \<Longrightarrow> k \<le> length xs \<Longrightarrow> py_index xs (- int k) = Some (xs ! (length xs - k))"
  by (simp add: py_index_def Let_def nat_diff_distrib')

lemma py_slice_title:
  "9 \<le> length xs \<Longrightarrow> py_slice xs 2 (- 7) = take (length xs - 9) (drop 2 xs)"
  by (simp add: py_slice_def Let_def nat_diff_distrib')

lemma join_with_nonempty:
  "xs \<noteq> [] \<Longrightarrow> hd xs \<noteq> [] \<Longrightarrow> join_with sep xs \<noteq> []"
  by (induction sep xs rule: join_with.induct) auto

section \<open>The row parser\<close>

lemma extract_fields_eq:
  assumes "10 \<le> length tokens"
  shows "extract_fields k tokens =
    (case py_float (tokens ! (length tokens - 6)) of
       None \<Rightarrow> None
     | Some c \<Rightarrow>
        Some \<lparr> sl_no = k, course_code = tokens ! 1,
               course_title = join_with '' '' (take (length tokens - 9) (drop 2 tokens)),
               course_type = tokens ! (length tokens - 7), credits = c,
               grade = tokens ! (length tokens - 5),
               exam_month = tokens ! (length tokens - 4),
               result_declared_on = tokens ! (length tokens - 3),
               course_option = tokens ! (length tokens - 2),
               course_distribution = tokens ! (length tokens - 1) \<rparr>)"
proof -
  have i1: "py_index tokens 1 = Some (tokens ! 1)"
    using assms by (simp add: py_index_def)
  have neg: "\<And>k. 0 < k \<Longrightarrow> k \<le> 7 \<Longrightarrow>
      py_index tokens (- int k) = Some (tokens ! (length tokens - k))"
    using assms by (intro py_index_neg) auto
  have n1: "py_index tokens (- 1) = Some (tokens ! (length tokens - 1))" using neg [of 1] by simp
  have n2: "py_index tokens (- 2) = Some (tokens ! (length tokens - 2))" using neg [of 2] by simp
  have n3: "py_index tokens (- 3) = Some (tokens ! (length tokens - 3))" using neg [of 3] by simp
  have n4: "py_index tokens (- 4) = Some (tokens ! (length tokens - 4))" using neg [of 4] by simp
  have n5: "py_index tokens (- 5) = Some (tokens ! (length tokens - 5))" using neg [of 5] by simp
  have n6: "py_index tokens (- 6) = Some (tokens ! (length tokens - 6))" using neg [of 6] by simp
  have n7: "py_index tokens (- 7) = Some (tokens ! (length tokens - 7))" using neg [of 7] by simp
  have sl: "py_slice tokens 2 (- 7) = take (length tokens - 9) (drop 2 tokens)"
    using assms by (intro py_slice_title) simp
  show ?thesis
    unfolding extract_fields_def
    by (cases "py_float (tokens ! (length tokens - 6))")
       (simp_all only: i1 n1 n2 n3 n4 n5 n6 n7 sl bind.bind_lunit bind.bind_lzero option.case)
qed

lemma parse_course_line_eq:
  assumes "10 \<le> length (split_ws line)"
  shows "parse_course_line line =
     (case py_int (split_ws line ! 0) of
        None \<Rightarrow> Inr None
      | Some k \<Rightarrow> Inr (extract_fields k (split_ws line)))"
proof -
  have "split_ws line \<noteq> []" using assms by auto
  then have "py_index (split_ws line) 0 = Some (split_ws line ! 0)"
    by (simp add: py_index_def)
  then show ?thesis using assms by (simp add: parse_course_line_def Let_def)
qed

lemma parse_course_line_short:
  "length (split_ws line) < 10 \<Longrightarrow> parse_course_line line = Inr None"
  by (simp add: parse_course_line_def Let_def)

lemma parse_course_line_accepts:
  assumes "10 \<le> length (split_ws line)"
    and "py_int (split_ws line ! 0) = Some k"
    and "py_float (split_ws line ! (length (split_ws line) - 6)) = Some c"
  shows "parse_course_line line = Inr (Some
      \<lparr> sl_no = k, course_code = split_ws line ! 1,
        course_title = join_with '' '' (take (length (split_ws line) - 9) (drop 2 (split_ws line))),
        course_type = split_ws line ! (length (split_ws line) - 7), credits = c,
        grade = split_ws line ! (length (split_ws line) - 5),
        exam_month = split_ws line ! (length (split_ws line) - 4),
        result_declared_on = split_ws line ! (length (split_ws line) - 3),
        course_option = split_ws line ! (length (split_ws line) - 2),
        course_distribution = split_ws line ! (length (split_ws line) - 1) \<rparr>)"
  by (simp only: parse_course_line_eq [OF assms(1)] extract_fields_eq [OF assms(1)] assms(2,3)
        option.case)

lemma parse_course_line_rejects:
  assumes "length (split_ws line) < 10 \<or> py_int (split_ws line ! 0) = None
     \<or> py_float (split_ws line ! (length (split_ws line) - 6)) = None"
  shows "parse_course_line line = Inr None"
proof (cases "length (split_ws line) < 10")
  case True
  then show ?thesis by (rule parse_course_line_short)
next
  case False
  then have len: "10 \<le> length (split_ws line)" by simp
  show ?thesis
  proof (cases "py_int (split_ws line ! 0)")
    case None
    then show ?thesis by (simp only: parse_course_line_eq [OF len] option.case)
  next
    case (Some k)
    with assms False
    have "py_float (split_ws line ! (length (split_ws line) - 6)) = None" by simp
    then show ?thesis
      by (simp only: parse_course_line_eq [OF len] extract_fields_eq [OF len] Some option.case)
  qed
qed

lemma parse_course_line_total: "\<exists>r. parse_course_line line = Inr r"
proof (cases "length (split_ws line) < 10")
  case True
  then show ?thesis by (simp add: parse_course_line_short)
next
  case False
  then have "10 \<le> length (split_ws line)" by simp
  then show ?thesis
    by (simp only: parse_course_line_eq split: option.split) simp
qed

lemma starts_record_nonempty: "starts_record line \<Longrightarrow> line \<noteq> []"
  by (auto simp: starts_record_def Let_def)

lemma flush_rejected:
  "parse_course_line line = Inr None \<Longrightarrow> flush records line = Inr records"
  by (simp add: flush_def)

lemma flush_accepted:
  "parse_course_line line = Inr (Some r) \<Longrightarrow> flush records line = Inr (records @ [r])"
  by (cases "line = []") (simp_all add: flush_def parse_course_line_def Let_def split_ws_Nil)


section \<open>The claims about the row parser\<close>

text \<open>
  Claim C3. Normalization, segmentation and row parsing of the single raw line
  \<open>6HUM1021Engineering Mechanics L 3.0 B MAY2023 JUN2023 FULL DIST2\<close> give exactly one
  record: serial number 6, code HUM1021, title "Engineering Mechanics", type L, credits
  3.0, grade B, exam month MAY2023, result declared on JUN2023, option FULL, distribution
  DIST2.
\<close>

theorem end_to_end_scenario:
  "parse_grade_history ''6HUM1021Engineering Mechanics L 3.0 B MAY2023 JUN2023 FULL DIST2'' =
     Inr [\<lparr> sl_no = 6, course_code = ''HUM1021'', course_title = ''Engineering Mechanics'',
            course_type = ''L'', credits = Finite 3, grade = ''B'', exam_month = ''MAY2023'',
            result_declared_on = ''JUN2023'', course_option = ''FULL'',
            course_distribution = ''DIST2'' \<rparr>]"
  by code_simp

text \<open>
  Claim C4 says that a row of exactly nine tokens yields a record with an empty title.
  The parser returns no record for such a row: the guard \<open>len(tokens) < 10\<close> comes first.
\<close>

theorem nine_token_row_counterexample:
  "length (split_ws ''3 CSE1001 REG 4.0 A MAY2023 JUN2023 FULL DIST1'') = 9
   \<and> parse_course_line ''3 CSE1001 REG 4.0 A MAY2023 JUN2023 FULL DIST1'' = Inr None"
  by code_simp

text \<open>
  Claim C4, amended: a row of exactly nine tokens is rejected; the parser returns no
  record for it.
\<close>

theorem nine_token_row_rejected:
  "length (split_ws line) = 9 \<Longrightarrow> parse_course_line line = Inr None"
  by (simp add: parse_course_line_short)

theorem nine_token_row_rejected_witness:
  "length (split_ws ''8 MAT2002 TH 4 S NOV2022 DEC2022 REG CORE'') = 9
   \<and> parse_course_line ''8 MAT2002 TH 4 S NOV2022 DEC2022 REG CORE'' = Inr None"
proof -
  have len: "length (split_ws ''8 MAT2002 TH 4 S NOV2022 DEC2022 REG CORE'') = 9"
    by code_simp
  from nine_token_row_rejected [OF len] len show ?thesis by simp
qed

text \<open>
  Claim C6. The twelve-token row \<open>3 CSE1001 Intro to Systems REG 4.0 A MAY2023 JUN2023 FULL
  DIST1\<close> parses to the title "Intro to Systems", credits 4.0 and serial number 3; and for
  every accepted row the seven trailing fields are the last seven tokens, counted from the
  right, whatever the number of title tokens between them and the course code.
\<close>

theorem parser_right_anchoring:
  "parse_course_line ''3 CSE1001 Intro to Systems REG 4.0 A MAY2023 JUN2023 FULL DIST1'' =
     Inr (Some \<lparr> sl_no = 3, course_code = ''CSE1001'', course_title = ''Intro to Systems'',
            course_type = ''REG'', credits = Finite 4, grade = ''A'', exam_month = ''MAY2023'',
            result_declared_on = ''JUN2023'', course_option = ''FULL'',
            course_distribution = ''DIST1'' \<rparr>)
   \<and> (\<forall>line k c.
        10 \<le> length (split_ws line) \<and> py_int (split_ws line ! 0) = Some k
        \<and> py_float (split_ws line ! (length (split_ws line) - 6)) = Some c
        \<longrightarrow> parse_course_line line = Inr (Some
      \<lparr> sl_no = k, course_code = split_ws line ! 1,
        course_title = join_with '' '' (take (length (split_ws line) - 9) (drop 2 (split_ws line))),
        course_type = split_ws line ! (length (split_ws line) - 7), credits = c,
        grade = split_ws line ! (length (split_ws line) - 5),
        exam_month = split_ws line ! (length (split_ws line) - 4),
        result_declared_on = split_ws line ! (length (split_ws line) - 3),
        course_option = split_ws line ! (length (split_ws line) - 2),
        course_distribution = split_ws line ! (length (split_ws line) - 1) \<rparr>))"
proof (intro conjI allI impI)
  show "parse_course_line ''3 CSE1001 Intro to Systems REG 4.0 A MAY2023 JUN2023 FULL DIST1'' =
     Inr (Some \<lparr> sl_no = 3, course_code = ''CSE1001'', course_title = ''Intro to Systems'',
            course_type = ''REG'', credits = Finite 4, grade = ''A'', exam_month = ''MAY2023'',
            result_declared_on = ''JUN2023'', course_option = ''FULL'',
            course_distribution = ''DIST1'' \<rparr>)"
    by code_simp
next
  fix line k c
  assume "10 \<le> length (split_ws line) \<and> py_int (split_ws line ! 0) = Some k
        \<and> py_float (split_ws line ! (length (split_ws line) - 6)) = Some c"
  then show "parse_course_line line = Inr (Some
      \<lparr> sl_no = k, course_code = split_ws line ! 1,
        course_title = join_with '' '' (take (length (split_ws line) - 9) (drop 2 (split_ws line))),
        course_type = split_ws line ! (length (split_ws line) - 7), credits = c,
        grade = split_ws line ! (length (split_ws line) - 5),
        exam_month = split_ws line ! (length (split_ws line) - 4),
        result_declared_on = split_ws line ! (length (split_ws line) - 3),
        course_option = split_ws line ! (length (split_ws line) - 2),
        course_distribution = split_ws line ! (length (split_ws line) - 1) \<rparr>)"
    by (intro parse_course_line_accepts) simp_all
qed

theorem parser_right_anchoring_witness:
  "10 \<le> length (split_ws ''12 PHY1001 The Physics of Waves and Fields LT 2.5 S NOV2022 DEC2022 REG CORE'')
   \<and> py_int (split_ws ''12 PHY1001 The Physics of Waves and Fields LT 2.5 S NOV2022 DEC2022 REG CORE'' ! 0) = Some 12
   \<and> parse_course_line ''12 PHY1001 The Physics of Waves and Fields LT 2.5 S NOV2022 DEC2022 REG CORE'' =
     Inr (Some \<lparr> sl_no = 12, course_code = ''PHY1001'',
            course_title = ''The Physics of Waves and Fields'',
            course_type = ''LT'', credits = Finite (5 / 2), grade = ''S'', exam_month = ''NOV2022'',
            result_declared_on = ''DEC2022'', course_option = ''REG'',
            course_distribution = ''CORE'' \<rparr>)"
proof -
  let ?l = "''12 PHY1001 The Physics of Waves and Fields LT 2.5 S NOV2022 DEC2022 REG CORE''"
  have toks: "split_ws ?l = [''12'', ''PHY1001'', ''The'', ''Physics'', ''of'', ''Waves'', ''and'',
      ''Fields'', ''LT'', ''2.5'', ''S'', ''NOV2022'', ''DEC2022'', ''REG'', ''CORE'']"
    by code_simp
  have i: "py_int ''12'' = Some 12" by code_simp
  have f: "py_float ''2.5'' = Some (Finite (5 / 2))" by code_simp
  have h: "10 \<le> length (split_ws ?l) \<and> py_int (split_ws ?l ! 0) = Some 12
        \<and> py_float (split_ws ?l ! (length (split_ws ?l) - 6)) = Some (Finite (5 / 2))"
    by (simp add: toks i f)
  from parser_right_anchoring have "parse_course_line ?l = Inr (Some
      \<lparr> sl_no = 12, course_code = split_ws ?l ! 1,
        course_title = join_with '' '' (take (length (split_ws ?l) - 9) (drop 2 (split_ws ?l))),
        course_type = split_ws ?l ! (length (split_ws ?l) - 7), credits = Finite (5 / 2),
        grade = split_ws ?l ! (length (split_ws ?l) - 5),
        exam_month = split_ws ?l ! (length (split_ws ?l) - 4),
        result_declared_on = split_ws ?l ! (length (split_ws ?l) - 3),
        course_option = split_ws ?l ! (length (split_ws ?l) - 2),
        course_distribution = split_ws ?l ! (length (split_ws ?l) - 1) \<rparr>)"
    using h by blast
  then show ?thesis using h by (simp add: toks)
qed

text \<open>
  Claim C7. A row with fewer than ten tokens, or whose first token is no integer, or
  whose sixth token from the right is no number, yields no record at all; flushing it
  leaves the records collected so far unchanged, and the loop goes on with the next row.
  The rows beside it still parse: when the next anchor line is a row that the parser
  accepts, the loop and the closing flush give the records collected so far followed by
  that row's record; and when the rejected row is an anchor line that follows an
  accepted row, that row's record is appended all the same.
\<close>

theorem malformed_row_rejected:
  assumes "length (split_ws line) < 10 \<or> py_int (split_ws line ! 0) = None
     \<or> py_float (split_ws line ! (length (split_ws line) - 6)) = None"
  shows "parse_course_line line = Inr None
    \<and> (\<forall>records. flush records line = Inr records)
    \<and> (\<forall>records raw rest. starts_record (clean_line raw) \<longrightarrow>
          grade_history_loop records line (raw # rest)
            = grade_history_loop records (clean_line raw) rest)
    \<and> (\<forall>records raw r. starts_record (clean_line raw) \<longrightarrow>
          parse_course_line (clean_line raw) = Inr (Some r) \<longrightarrow>
          (case grade_history_loop records line [raw] of
             Inl e \<Rightarrow> Inl e
           | Inr (recs, cur) \<Rightarrow> flush recs cur) = Inr (records @ [r]))
    \<and> (\<forall>records prev raw r. parse_course_line prev = Inr (Some r) \<longrightarrow>
          starts_record line \<longrightarrow> clean_line raw = line \<longrightarrow>
          (case grade_history_loop records prev [raw] of
             Inl e \<Rightarrow> Inl e
           | Inr (recs, cur) \<Rightarrow> flush recs cur) = Inr (records @ [r]))"
proof -
  have rej: "parse_course_line line = Inr None"
    using assms by (rule parse_course_line_rejects)
  then have fl: "\<And>records. flush records line = Inr records" by (rule flush_rejected)
  have step: "grade_history_loop records line (raw # rest)
            = grade_history_loop records (clean_line raw) rest"
    if "starts_record (clean_line raw)" for records raw rest
    using that starts_record_nonempty [OF that] by (simp add: Let_def fl)
  have after: "(case grade_history_loop records line [raw] of
             Inl e \<Rightarrow> Inl e
           | Inr (recs, cur) \<Rightarrow> flush recs cur) = Inr (records @ [r])"
    if "starts_record (clean_line raw)" "parse_course_line (clean_line raw) = Inr (Some r)"
    for records raw r
    using step [OF that(1)] flush_accepted [OF that(2)] by simp
  have before: "(case grade_history_loop records prev [raw] of
             Inl e \<Rightarrow> Inl e
           | Inr (recs, cur) \<Rightarrow> flush recs cur) = Inr (records @ [r])"
    if "parse_course_line prev = Inr (Some r)" "starts_record line" "clean_line raw = line"
    for records prev raw r
    using that(2,3) starts_record_nonempty [OF that(2)] flush_accepted [OF that(1)] fl
    by (simp add: Let_def)
  from rej fl step after before show ?thesis by blast
qed

theorem malformed_row_rejected_witness:
  "py_float (split_ws ''7 PHY1001 Physics Lab LO two A MAY2023 JUN2023 FULL DIST1''
             ! (length (split_ws ''7 PHY1001 Physics Lab LO two A MAY2023 JUN2023 FULL DIST1'') - 6)) = None
   \<and> starts_record (clean_line ''8 MAT2002 Calculus TH 4 S NOV2022 DEC2022 REG CORE'')
   \<and> parse_course_line ''7 PHY1001 Physics Lab LO two A MAY2023 JUN2023 FULL DIST1'' = Inr None
   \<and> grade_history_loop [] ''7 PHY1001 Physics Lab LO two A MAY2023 JUN2023 FULL DIST1''
        [''8 MAT2002 Calculus TH 4 S NOV2022 DEC2022 REG CORE'']
      = Inr ([], ''8 MAT2002 Calculus TH 4 S NOV2022 DEC2022 REG CORE'')
   \<and> parse_course_line (clean_line ''8 MAT2002 Calculus TH 4 S NOV2022 DEC2022 REG CORE'')
      = Inr (Some \<lparr> sl_no = 8, course_code = ''MAT2002'', course_title = ''Calculus'',
            course_type = ''TH'', credits = Finite 4, grade = ''S'', exam_month = ''NOV2022'',
            result_declared_on = ''DEC2022'', course_option = ''REG'',
            course_distribution = ''CORE'' \<rparr>)
   \<and> (case grade_history_loop [] ''7 PHY1001 Physics Lab LO two A MAY2023 JUN2023 FULL DIST1''
              [''8 MAT2002 Calculus TH 4 S NOV2022 DEC2022 REG CORE''] of
         Inl e \<Rightarrow> Inl e
       | Inr (recs, cur) \<Rightarrow> flush recs cur)
      = Inr [\<lparr> sl_no = 8, course_code = ''MAT2002'', course_title = ''Calculus'',
            course_type = ''TH'', credits = Finite 4, grade = ''S'', exam_month = ''NOV2022'',
            result_declared_on = ''DEC2022'', course_option = ''REG'',
            course_distribution = ''CORE'' \<rparr>]
   \<and> parse_grade_history
        (''3 CSE1001 Intro to Systems REG 4.0 A MAY2023 JUN2023 FULL DIST1'' @ [CHR 0x0A]
         @ ''7 PHY1001 Physics Lab LO two A MAY2023 JUN2023 FULL DIST1'' @ [CHR 0x0A]
         @ ''8 MAT2002 Calculus TH 4 S NOV2022 DEC2022 REG CORE'' @ [CHR 0x0A])
      = Inr [\<lparr> sl_no = 3, course_code = ''CSE1001'', course_title = ''Intro to Systems'',
            course_type = ''REG'', credits = Finite 4, grade = ''A'', exam_month = ''MAY2023'',
            result_declared_on = ''JUN2023'', course_option = ''FULL'',
            course_distribution = ''DIST1'' \<rparr>,
           \<lparr> sl_no = 8, course_code = ''MAT2002'', course_title = ''Calculus'',
            course_type = ''TH'', credits = Finite 4, grade = ''S'', exam_month = ''NOV2022'',
            result_declared_on = ''DEC2022'', course_option = ''REG'',
            course_distribution = ''CORE'' \<rparr>]"
proof -
  let ?bad = "''7 PHY1001 Physics Lab LO two A MAY2023 JUN2023 FULL DIST1''"
  let ?next = "''8 MAT2002 Calculus TH 4 S NOV2022 DEC2022 REG CORE''"
  let ?r = "\<lparr> sl_no = 8, course_code = ''MAT2002'', course_title = ''Calculus'',
            course_type = ''TH'', credits = Finite 4, grade = ''S'', exam_month = ''NOV2022'',
            result_declared_on = ''DEC2022'', course_option = ''REG'',
            course_distribution = ''CORE'' \<rparr>"
  have h: "py_float (split_ws ?bad ! (length (split_ws ?bad) - 6)) = None" by code_simp
  have cl: "clean_line ?next = ?next" by code_simp
  have st: "starts_record (clean_line ?next)" unfolding cl by code_simp
  have ok: "parse_course_line (clean_line ?next) = Inr (Some ?r)" unfolding cl by code_simp
  have doc: "parse_grade_history
        (''3 CSE1001 Intro to Systems REG 4.0 A MAY2023 JUN2023 FULL DIST1'' @ [CHR 0x0A]
         @ ?bad @ [CHR 0x0A] @ ?next @ [CHR 0x0A])
      = Inr [\<lparr> sl_no = 3, course_code = ''CSE1001'', course_title = ''Intro to Systems'',
            course_type = ''REG'', credits = Finite 4, grade = ''A'', exam_month = ''MAY2023'',
            result_declared_on = ''JUN2023'', course_option = ''FULL'',
            course_distribution = ''DIST1'' \<rparr>, ?r]"
    by code_simp
  have hyp: "length (split_ws ?bad) < 10 \<or> py_int (split_ws ?bad ! 0) = None
     \<or> py_float (split_ws ?bad ! (length (split_ws ?bad) - 6)) = None"
    using h by simp
  from malformed_row_rejected [OF hyp] st ok
  have "parse_course_line ?bad = Inr None"
    and "grade_history_loop [] ?bad [?next] = grade_history_loop [] (clean_line ?next) []"
    and "(case grade_history_loop [] ?bad [?next] of
             Inl e \<Rightarrow> Inl e
           | Inr (recs, cur) \<Rightarrow> flush recs cur) = Inr ([] @ [?r])"
    by blast+
  then show ?thesis using h st ok doc by (simp add: cl)
qed

text \<open>
  Claim C10. Every record the row parser returns has a non-empty title, and comes from a
  row of at least ten tokens; so a nine-token row never yields a record.
\<close>

theorem accepted_title_nonempty:
  assumes "parse_course_line line = Inr (Some r)"
  shows "course_title r \<noteq> [] \<and> 10 \<le> length (split_ws line)"
proof -
  have len: "10 \<le> length (split_ws line)"
  proof (rule ccontr)
    assume "\<not> 10 \<le> length (split_ws line)"
    then have "parse_course_line line = Inr None" by (simp add: parse_course_line_short)
    with assms show False by simp
  qed
  let ?toks = "split_ws line"
  let ?title = "take (length ?toks - 9) (drop 2 ?toks)"
  obtain k where k: "py_int (?toks ! 0) = Some k"
    using assms by (cases "py_int (?toks ! 0)") (simp_all add: parse_course_line_eq [OF len])
  obtain c where c: "py_float (?toks ! (length ?toks - 6)) = Some c"
    using assms k
    by (cases "py_float (?toks ! (length ?toks - 6))")
       (simp_all add: parse_course_line_eq [OF len] extract_fields_eq [OF len])
  have t: "course_title r = join_with '' '' ?title"
    using assms parse_course_line_accepts [OF len k c] by auto
  have ne: "?title \<noteq> []" using len by simp
  have "hd ?title = ?toks ! 2" using len by (simp add: hd_conv_nth hd_drop_conv_nth)
  moreover have "?toks ! 2 \<in> set ?toks" using len by simp
  ultimately have "hd ?title \<noteq> []" using split_ws_tokens by metis
  with ne have "join_with '' '' ?title \<noteq> []" by (rule join_with_nonempty)
  with t len show ?thesis by simp
qed

theorem accepted_title_nonempty_witness:
  "parse_course_line ''5 CHY1701 Engineering Chemistry ETL 4.0 A NOV2021 DEC2021 REG CORE''
     = Inr (Some \<lparr> sl_no = 5, course_code = ''CHY1701'', course_title = ''Engineering Chemistry'',
            course_type = ''ETL'', credits = Finite 4, grade = ''A'', exam_month = ''NOV2021'',
            result_declared_on = ''DEC2021'', course_option = ''REG'',
            course_distribution = ''CORE'' \<rparr>)
   \<and> ''Engineering Chemistry'' \<noteq> []
   \<and> 10 \<le> length (split_ws ''5 CHY1701 Engineering Chemistry ETL 4.0 A NOV2021 DEC2021 REG CORE'')"
proof -
  have p: "parse_course_line ''5 CHY1701 Engineering Chemistry ETL 4.0 A NOV2021 DEC2021 REG CORE''
     = Inr (Some \<lparr> sl_no = 5, course_code = ''CHY1701'', course_title = ''Engineering Chemistry'',
            course_type = ''ETL'', credits = Finite 4, grade = ''A'', exam_month = ''NOV2021'',
            result_declared_on = ''DEC2021'', course_option = ''REG'',
            course_distribution = ''CORE'' \<rparr>)"
    by code_simp
  from accepted_title_nonempty [OF p] p show ?thesis by simp
qed


section \<open>The segmenter\<close>

lemma digit_not_space: "is_digit c \<Longrightarrow> \<not> is_space c"
  by (auto simp: is_digit_def is_space_def Let_def)

lemma upper_not_space: "is_upper c \<Longrightarrow> \<not> is_space c"
  by (auto simp: is_upper_def is_space_def Let_def)

lemma upper_not_digit: "is_upper c \<Longrightarrow> \<not> is_digit c"
  by (auto simp: is_upper_def is_digit_def)

lemma space_not_digit: "is_space c \<Longrightarrow> \<not> is_digit c"
  by (auto simp: is_digit_def is_space_def Let_def)

lemma digit_is_word: "is_digit c \<Longrightarrow> is_word c"
  by (simp add: is_word_def Let_def)

lemma takeWhile_run:
  "list_all P xs \<Longrightarrow> ys = [] \<or> \<not> P (hd ys) \<Longrightarrow> takeWhile P (xs @ ys) = xs"
  by (induction xs) (cases ys; auto)+

lemma dropWhile_run:
  "list_all P xs \<Longrightarrow> ys = [] \<or> \<not> P (hd ys) \<Longrightarrow> dropWhile P (xs @ ys) = ys"
  by (induction xs) (cases ys; auto)+

lemma code_at_split:
  "code_at s \<longleftrightarrow> (\<exists>code rest. s = code @ rest \<and> length code = 7
      \<and> list_all is_upper (take 3 code) \<and> list_all is_digit (drop 3 code))"
proof
  assume c: "code_at s"
  then have "s = take 7 s @ drop 7 s \<and> length (take 7 s) = 7
      \<and> list_all is_upper (take 3 (take 7 s)) \<and> list_all is_digit (drop 3 (take 7 s))"
    by (simp add: code_at_def min_def drop_take)
  then show "\<exists>code rest. s = code @ rest \<and> length code = 7
      \<and> list_all is_upper (take 3 code) \<and> list_all is_digit (drop 3 code)"
    by blast
next
  assume "\<exists>code rest. s = code @ rest \<and> length code = 7
      \<and> list_all is_upper (take 3 code) \<and> list_all is_digit (drop 3 code)"
  then obtain code rest where s: "s = code @ rest" and l: "length code = 7"
    and u: "list_all is_upper (take 3 code)" and d: "list_all is_digit (drop 3 code)"
    by blast
  show "code_at s" using l u d by (simp add: code_at_def s)
qed

lemma starts_record_iff_spec: "starts_record line \<longleftrightarrow> anchor_spec line"
proof
  assume sr: "starts_record line"
  define ds where "ds = takeWhile is_digit line"
  define r1 where "r1 = dropWhile is_digit line"
  define ws where "ws = takeWhile is_space r1"
  define r2 where "r2 = dropWhile is_space r1"
  from sr have ds: "ds \<noteq> []" and ws: "ws \<noteq> []" and ca: "code_at r2"
    and wb: "word_boundary (Some (r2 ! 6)) (if 7 < length r2 then Some (r2 ! 7) else None)"
    unfolding starts_record_def Let_def ds_def r1_def ws_def r2_def by blast+
  have line: "line = ds @ ws @ take 7 r2 @ drop 7 r2"
    by (simp add: ds_def r1_def ws_def r2_def)
  have dds: "list_all is_digit ds" unfolding ds_def list_all_iff
    using set_takeWhileD by fastforce
  have wws: "list_all is_space ws" unfolding ws_def list_all_iff
    using set_takeWhileD by fastforce
  from ca have len: "7 \<le> length r2" and up: "list_all is_upper (take 3 r2)"
    and dg: "list_all is_digit (take 4 (drop 3 r2))"
    by (simp_all add: code_at_def)
  have six: "is_digit (r2 ! 6)"
  proof -
    have "r2 ! 6 = take 4 (drop 3 r2) ! 3" using len by simp
    moreover have "3 < length (take 4 (drop 3 r2))" using len by simp
    ultimately show ?thesis using dg by (metis list_all_length)
  qed
  have rest: "drop 7 r2 = [] \<or> \<not> is_word (hd (drop 7 r2))"
  proof (cases "7 < length r2")
    case True
    then have "hd (drop 7 r2) = r2 ! 7" by (simp add: hd_drop_conv_nth)
    with wb True six show ?thesis by (simp add: word_boundary_def digit_is_word)
  next
    case False
    then show ?thesis by simp
  qed
  have "length (take 7 r2) = 7" using len by simp
  moreover have "list_all is_upper (take 3 (take 7 r2))" using up by simp
  moreover have "list_all is_digit (drop 3 (take 7 r2))" using dg by (simp add: drop_take)
  ultimately show "anchor_spec line"
    unfolding anchor_spec_def using line ds dds ws wws rest by blast
next
  assume "anchor_spec line"
  then obtain ds ws code rest where line: "line = ds @ ws @ code @ rest"
    and ds: "ds \<noteq> []" and dds: "list_all is_digit ds"
    and ws: "ws \<noteq> []" and wws: "list_all is_space ws"
    and l: "length code = 7" and u: "list_all is_upper (take 3 code)"
    and d: "list_all is_digit (drop 3 code)"
    and rest: "rest = [] \<or> \<not> is_word (hd rest)"
    unfolding anchor_spec_def by blast
  have hws: "\<not> is_digit (hd (ws @ code @ rest))"
    using ws wws by (cases ws) (simp_all add: space_not_digit)
  have "is_upper (hd code)" using l u by (cases code) auto
  then have hcode: "\<not> is_space (hd (code @ rest))"
    using l by (cases code) (simp_all add: upper_not_space)
  have t1: "takeWhile is_digit line = ds" unfolding line
    using dds hws by (intro takeWhile_run) simp_all
  have d1: "dropWhile is_digit line = ws @ code @ rest" unfolding line
    using dds hws by (intro dropWhile_run) simp_all
  have t2: "takeWhile is_space (ws @ code @ rest) = ws"
    using wws hcode by (intro takeWhile_run) simp_all
  have d2: "dropWhile is_space (ws @ code @ rest) = code @ rest"
    using wws hcode by (intro dropWhile_run) simp_all
  have ca: "code_at (code @ rest)" using l u d code_at_split by blast
  have six: "is_digit ((code @ rest) ! 6)"
  proof -
    have "(code @ rest) ! 6 = drop 3 code ! 3" using l by (simp add: nth_append)
    moreover have "3 < length (drop 3 code)" using l by simp
    ultimately show ?thesis using d by (metis list_all_length)
  qed
  have wb: "word_boundary (Some ((code @ rest) ! 6))
      (if 7 < length (code @ rest) then Some ((code @ rest) ! 7) else None)"
  proof (cases rest)
    case Nil
    then show ?thesis using six l by (simp add: word_boundary_def digit_is_word)
  next
    case (Cons x xs)
    then have "(code @ rest) ! 7 = hd rest" using l by (simp add: nth_append)
    then show ?thesis using six l rest Cons by (simp add: word_boundary_def digit_is_word)
  qed
  show "starts_record line"
    unfolding starts_record_def Let_def t1 d1 t2 d2 using ds ws ca wb by simp
qed

lemma loop_skips_non_anchor:
  "\<forall>l\<in>set pre. \<not> starts_record (clean_line l) \<Longrightarrow>
   grade_history_loop records [] (pre @ rest) = grade_history_loop records [] rest"
  by (induction pre) (simp_all add: Let_def)

text \<open>
  Claim C5. A cleaned, non-empty line starts a new record exactly when it begins with one
  or more digits, then whitespace, then a course code of three uppercase letters and four
  digits ending at a word boundary. Such a line flushes the accumulated row and becomes the
  new accumulator; any other line is appended to a non-empty accumulator after a single
  space; and the lines that come before the first anchor line are dropped.
\<close>

theorem segmenter_behaviour:
  "(starts_record line \<longleftrightarrow> anchor_spec line)
   \<and> (starts_record (clean_line raw) \<longrightarrow>
        grade_history_loop records cur (raw # rest) =
          (case flush records cur of
             Inl e \<Rightarrow> Inl e
           | Inr records' \<Rightarrow> grade_history_loop records' (clean_line raw) rest))
   \<and> (clean_line raw \<noteq> [] \<and> \<not> starts_record (clean_line raw) \<and> cur \<noteq> [] \<longrightarrow>
        grade_history_loop records cur (raw # rest) =
          grade_history_loop records (cur @ '' '' @ clean_line raw) rest)
   \<and> ((\<forall>l\<in>set pre. \<not> starts_record (clean_line l)) \<longrightarrow>
        grade_history_loop records [] (pre @ rest) = grade_history_loop records [] rest)"
proof (intro conjI impI)
  show "starts_record line \<longleftrightarrow> anchor_spec line" by (rule starts_record_iff_spec)
next
  assume "starts_record (clean_line raw)"
  then show "grade_history_loop records cur (raw # rest) =
          (case flush records cur of
             Inl e \<Rightarrow> Inl e
           | Inr records' \<Rightarrow> grade_history_loop records' (clean_line raw) rest)"
    using starts_record_nonempty [of "clean_line raw"] by (simp add: Let_def)
next
  assume "clean_line raw \<noteq> [] \<and> \<not> starts_record (clean_line raw) \<and> cur \<noteq> []"
  then show "grade_history_loop records cur (raw # rest) =
          grade_history_loop records (cur @ '' '' @ clean_line raw) rest"
    by (simp add: Let_def)
next
  assume "\<forall>l\<in>set pre. \<not> starts_record (clean_line l)"
  then show "grade_history_loop records [] (pre @ rest) = grade_history_loop records [] rest"
    by (rule loop_skips_non_anchor)
qed

theorem segmenter_behaviour_witness:
  "anchor_spec ''12 CSE1001 Data''
   \<and> grade_history_loop [] ''12 CSE1001 Data'' [''Structures Continued '']
       = Inr ([], ''12 CSE1001 Data Structures Continued'')
   \<and> grade_history_loop [] [] [''Grade History'', ''12 CSE1001 Data'']
       = Inr ([], ''12 CSE1001 Data'')"
proof -
  let ?a = "''12 CSE1001 Data''"
  let ?c = "''Structures Continued ''"
  have ca: "clean_line ?a = ?a" by code_simp
  have cc: "clean_line ?c = ''Structures Continued''" by code_simp
  have cg: "clean_line ''Grade History'' = ''Grade History''" by code_simp
  have sa: "starts_record ?a" by code_simp
  have sc: "\<not> starts_record ''Structures Continued''" by code_simp
  have sg: "\<not> starts_record ''Grade History''" by code_simp
  have 1: "anchor_spec ?a"
    using segmenter_behaviour [of ?a] sa by blast
  have "clean_line ?c \<noteq> [] \<and> \<not> starts_record (clean_line ?c) \<and> ?a \<noteq> []"
    using sc by (simp add: cc)
  with segmenter_behaviour [of _ ?c "[]" ?a "[]"]
  have "grade_history_loop [] ?a [?c] = grade_history_loop [] (?a @ '' '' @ clean_line ?c) []"
    by blast
  then have 2: "grade_history_loop [] ?a [?c] = Inr ([], ''12 CSE1001 Data Structures Continued'')"
    by (simp add: cc)
  have "\<forall>l\<in>set [''Grade History'']. \<not> starts_record (clean_line l)"
    using sg by (simp add: cg)
  with segmenter_behaviour [of _ _ "[]" _ "[?a]" "[''Grade History'']"]
  have "grade_history_loop [] [] ([''Grade History''] @ [?a]) = grade_history_loop [] [] [?a]"
    by blast
  moreover have "starts_record (clean_line ?a)" using sa by (simp add: ca)
  with segmenter_behaviour [of _ ?a "[]" "[]" "[]"]
  have "grade_history_loop [] [] [?a] =
      (case flush [] [] of Inl e \<Rightarrow> Inl e
       | Inr records' \<Rightarrow> grade_history_loop records' (clean_line ?a) [])"
    by blast
  ultimately have 3: "grade_history_loop [] [] [''Grade History'', ?a] = Inr ([], ?a)"
    by (simp add: ca flush_def)
  from 1 2 3 show ?thesis by blast
qed


section \<open>The CSV decoder\<close>

lemmas reader_eval = parse_reset_def parse_add_char_def parse_save_field_def end_of_line_def
  is_newline_def field_limit_def feed_line_def

lemmas text_eval = strip_def numeric_strip_def is_space_def is_numeric_space_def code_point_def
  is_digit_def is_upper_def is_lower_def is_letter_def

lemmas number_eval = py_int_def py_float_def split_sign_def drop_underscores_def parse_decimal_def
  nat_of_digits_def digit_val_def lower_ascii_def int_max_str_digits_def

lemmas csv_eval = parse_csv_def dict_reader_def make_row_def dict_get_def or_empty_strip_def
  get_text_def decode_row_def

lemma binary64_four: "binary64 4 = Finite 4"
  by code_simp

text \<open>
  Claim C8 describes the policy of the decoder row by row: a row whose every cell is blank
  is skipped, and a row that fails to parse is skipped without ending the decode. With the
  expected header, a row of ten blank cells is skipped and the row after it is decoded; a
  row of eleven blank cells raises \<open>AttributeError\<close> in the blank-row test, which stands
  outside the \<open>try\<close> block, and the row after it is never decoded.
\<close>

theorem blank_row_aborts_decode:
  "parse_csv (''Sl.No,Course Code,Course Title,Course Type,Credits,Grade,Exam Month,''
              @ ''Result Declared On,Course Option,Course Distribution'' @ [CHR 0x0A]
              @ '',,,,,,,,,'' @ [CHR 0x0A]
              @ ''1,CSE1001,Intro,REG,4.0,A,MAY2023,JUN2023,FULL,DIST1'' @ [CHR 0x0A])
     = Inr [\<lparr> sl_no = 1, course_code = ''CSE1001'', course_title = ''Intro'',
            course_type = ''REG'', credits = Finite 4, grade = ''A'', exam_month = ''MAY2023'',
            result_declared_on = ''JUN2023'', course_option = ''FULL'',
            course_distribution = ''DIST1'' \<rparr>]
   \<and> parse_csv (''Sl.No,Course Code,Course Title,Course Type,Credits,Grade,Exam Month,''
              @ ''Result Declared On,Course Option,Course Distribution'' @ [CHR 0x0A]
              @ '',,,,,,,,,,'' @ [CHR 0x0A]
              @ ''1,CSE1001,Intro,REG,4.0,A,MAY2023,JUN2023,FULL,DIST1'' @ [CHR 0x0A])
     = Inl AttributeError"
  by (simp add: csv_eval reader_eval text_eval number_eval binary64_four)

text \<open>
  Claim C9 says that no exception leaves normalization, row parsing or CSV decoding.
  \<open>parse_csv\<close> raises \<open>AttributeError\<close> on a file whose data row has a cell more than the
  header and blank cells under every header column.
\<close>

theorem surplus_cell_row_raises:
  "parse_csv (''Sl.No,Course Code,Course Title,Course Type,Credits,Grade,Exam Month,''
              @ ''Result Declared On,Course Option,Course Distribution'' @ [CHR 0x0A]
              @ '',,,,,,,,,,x'' @ [CHR 0x0A])
     = Inl AttributeError"
  by (simp add: csv_eval reader_eval text_eval)


section \<open>The normalizer\<close>

lemma upper_is_word: "is_upper c \<Longrightarrow> is_word c"
  by (simp add: is_word_def Let_def)

lemma letter_is_word: "is_letter c \<Longrightarrow> is_word c"
  by (auto simp: is_word_def is_letter_def Let_def)

lemma digit_not_upper: "is_digit c \<Longrightarrow> \<not> is_upper c"
  by (auto simp: is_upper_def is_digit_def)

lemma letter_not_digit: "is_letter c \<Longrightarrow> \<not> is_digit c"
  by (auto simp: is_letter_def is_upper_def is_lower_def is_digit_def)

lemma blank_class [simp]:
  "\<not> is_word (CHR '' '')" "\<not> is_digit (CHR '' '')" "\<not> is_upper (CHR '' '')"
  "\<not> is_letter (CHR '' '')"
  by (simp_all add: is_word_def is_digit_def is_upper_def is_lower_def is_letter_def
        code_point_def Let_def)

lemma code_at_take: "code_at (take 7 s) = code_at s"
  by (auto simp: code_at_def min_def drop_take)

lemma code_at_decomp:
  "code_at s \<longleftrightarrow> (\<exists>a1 a2 a3 d1 d2 d3 d4 rest. s = a1 # a2 # a3 # d1 # d2 # d3 # d4 # rest
      \<and> is_upper a1 \<and> is_upper a2 \<and> is_upper a3
      \<and> is_digit d1 \<and> is_digit d2 \<and> is_digit d3 \<and> is_digit d4)"
proof
  assume c: "code_at s"
  then have len: "7 \<le> length s" by (simp add: code_at_def)
  then obtain a1 a2 a3 d1 d2 d3 d4 rest where s: "s = a1 # a2 # a3 # d1 # d2 # d3 # d4 # rest"
    by (auto simp: numeral_eq_Suc Suc_le_length_iff)
  with c show "\<exists>a1 a2 a3 d1 d2 d3 d4 rest. s = a1 # a2 # a3 # d1 # d2 # d3 # d4 # rest
      \<and> is_upper a1 \<and> is_upper a2 \<and> is_upper a3
      \<and> is_digit d1 \<and> is_digit d2 \<and> is_digit d3 \<and> is_digit d4"
    by (simp add: code_at_def)
next
  assume "\<exists>a1 a2 a3 d1 d2 d3 d4 rest. s = a1 # a2 # a3 # d1 # d2 # d3 # d4 # rest
      \<and> is_upper a1 \<and> is_upper a2 \<and> is_upper a3
      \<and> is_digit d1 \<and> is_digit d2 \<and> is_digit d3 \<and> is_digit d4"
  then show "code_at s" by (auto simp: code_at_def)
qed

lemma sub_slno_code_unfold:
  "\<not> slno_code_at p (c # cs) \<Longrightarrow> sub_slno_code p (c # cs) = c # sub_slno_code (Some c) cs"
  by (auto simp: slno_code_at_def)

lemma sub_code_title_unfold:
  "\<not> code_title_at (c # cs) \<Longrightarrow> sub_code_title (c # cs) = c # sub_code_title cs"
  by (auto simp: code_title_at_def)

lemma no_slno_code_fixed: "\<not> has_slno_code p s \<Longrightarrow> sub_slno_code p s = s"
  by (induction s arbitrary: p) (simp_all add: sub_slno_code_unfold del: sub_slno_code.simps(2))

lemma no_code_title_fixed: "\<not> has_code_title s \<Longrightarrow> sub_code_title s = s"
  by (induction s) (simp_all add: sub_code_title_unfold del: sub_code_title.simps(2))

lemma slno_code_at_after_word: "is_word q \<Longrightarrow> \<not> slno_code_at (Some q) s"
  by (auto simp: slno_code_at_def word_boundary_def digit_is_word)

lemma slno_code_at_digit: "slno_code_at p s \<Longrightarrow> is_digit (hd s)"
  by (simp add: slno_code_at_def)

lemma sub_slno_code_after_word:
  "is_word q \<Longrightarrow> sub_slno_code (Some q) (x # xs) = x # sub_slno_code (Some x) xs"
  by (simp add: sub_slno_code_unfold slno_code_at_after_word del: sub_slno_code.simps(2))

lemma sub_slno_code_word_prefix:
  "is_word q \<Longrightarrow> list_all is_word w \<Longrightarrow>
   take (length w) (sub_slno_code (Some q) xs) = w \<Longrightarrow> take (length w) xs = w"
proof (induction w arbitrary: q xs)
  case Nil
  then show ?case by simp
next
  case (Cons x w)
  show ?case
  proof (cases xs)
    case Nil
    with Cons.prems show ?thesis by simp
  next
    case (Cons y ys)
    have "sub_slno_code (Some q) xs = y # sub_slno_code (Some y) ys"
      unfolding Cons using Cons.prems(1) by (rule sub_slno_code_after_word)
    with Cons.prems(3) have "y # take (length w) (sub_slno_code (Some y) ys) = x # w"
      by auto
    then have eq: "y = x" and tl: "take (length w) (sub_slno_code (Some y) ys) = w"
      by blast+
    from Cons.prems(2) eq have "is_word y" "list_all is_word w" by simp_all
    from Cons.IH [OF this tl] eq Cons show ?thesis by simp
  qed
qed

lemma sub_code_title_take7: "take 7 (sub_code_title s) = take 7 s"
proof (induction s rule: sub_code_title.induct)
  case 1
  then show ?case by simp
next
  case (2 c cs)
  show ?case
  proof (cases "code_at (c # cs) \<and> 8 \<le> length (c # cs) \<and> is_letter (cs ! 6)")
    case True
    then show ?thesis by (simp add: min_def)
  next
    case False
    then have "take 7 (sub_code_title cs) = take 7 cs" using 2 by simp
    then have "take 6 (take 7 (sub_code_title cs)) = take 6 (take 7 cs)" by simp
    then have "take 6 (sub_code_title cs) = take 6 cs" by simp
    with False show ?thesis by (simp add: take_Cons')
  qed
qed

lemma sub_slno_code_take:
  assumes "is_word q" "k \<le> length (sub_slno_code (Some q) xs)"
    and "list_all is_word (take k (sub_slno_code (Some q) xs))"
  shows "take k xs = take k (sub_slno_code (Some q) xs)"
proof -
  let ?w = "take k (sub_slno_code (Some q) xs)"
  have len: "length ?w = k" using assms(2) by simp
  have "take (length ?w) (sub_slno_code (Some q) xs) = ?w" by (simp only: len)
  from sub_slno_code_word_prefix [OF assms(1,3) this] show ?thesis by (simp only: len)
qed

lemma code_title_at_take: "code_title_at (take 8 s) = code_title_at s"
  by (auto simp: code_title_at_def code_at_def min_def drop_take)

lemma glued_codes_at_take: "glued_codes_at (take 15 s) = glued_codes_at s"
proof -
  have "code_at (take 15 s) = code_at s"
    using code_at_take [of "take 15 s"] code_at_take [of s] by simp
  moreover have "code_title_at (drop 7 (take 15 s)) = code_title_at (drop 7 s)"
    using code_title_at_take [of "drop 7 s"] by (simp add: drop_take)
  ultimately show ?thesis by (simp add: glued_codes_at_def)
qed

lemma code_at_words: "code_at s \<Longrightarrow> 7 \<le> length s \<and> list_all is_word (take 7 s)"
  by (auto simp: code_at_decomp upper_is_word digit_is_word)

lemma code_title_at_decomp:
  "code_title_at s \<longleftrightarrow> (\<exists>a1 a2 a3 d1 d2 d3 d4 l rest.
      s = a1 # a2 # a3 # d1 # d2 # d3 # d4 # l # rest
      \<and> is_upper a1 \<and> is_upper a2 \<and> is_upper a3
      \<and> is_digit d1 \<and> is_digit d2 \<and> is_digit d3 \<and> is_digit d4 \<and> is_letter l)"
proof
  assume c: "code_title_at s"
  then obtain a1 a2 a3 d1 d2 d3 d4 r where s: "s = a1 # a2 # a3 # d1 # d2 # d3 # d4 # r"
    and cl: "is_upper a1 \<and> is_upper a2 \<and> is_upper a3
      \<and> is_digit d1 \<and> is_digit d2 \<and> is_digit d3 \<and> is_digit d4"
    unfolding code_title_at_def code_at_decomp by blast
  from c s obtain l rest where r: "r = l # rest" by (cases r) (simp_all add: code_title_at_def)
  from c s r have "is_letter l" by (simp add: code_title_at_def)
  with s r cl show "\<exists>a1 a2 a3 d1 d2 d3 d4 l rest.
      s = a1 # a2 # a3 # d1 # d2 # d3 # d4 # l # rest
      \<and> is_upper a1 \<and> is_upper a2 \<and> is_upper a3
      \<and> is_digit d1 \<and> is_digit d2 \<and> is_digit d3 \<and> is_digit d4 \<and> is_letter l"
    by blast
next
  assume "\<exists>a1 a2 a3 d1 d2 d3 d4 l rest.
      s = a1 # a2 # a3 # d1 # d2 # d3 # d4 # l # rest
      \<and> is_upper a1 \<and> is_upper a2 \<and> is_upper a3
      \<and> is_digit d1 \<and> is_digit d2 \<and> is_digit d3 \<and> is_digit d4 \<and> is_letter l"
  then show "code_title_at s" by (auto simp: code_title_at_def code_at_def)
qed

lemma code_title_at_words:
  "code_title_at s \<Longrightarrow> 8 \<le> length s \<and> list_all is_word (take 8 s)"
  by (auto simp: code_title_at_decomp upper_is_word digit_is_word letter_is_word)

lemma glued_codes_at_words:
  assumes "glued_codes_at s"
  shows "15 \<le> length s \<and> list_all is_word (take 15 s)"
proof -
  from assms have a: "code_at s" and b: "code_title_at (drop 7 s)"
    by (simp_all add: glued_codes_at_def)
  from code_at_words [OF a] code_title_at_words [OF b]
  have l: "15 \<le> length s" and w1: "list_all is_word (take 7 s)"
    and w2: "list_all is_word (take 8 (drop 7 s))" by auto
  have "take 15 s = take 7 s @ take 8 (drop 7 s)"
    using take_add [of 7 8 s] by simp
  with w1 w2 l show ?thesis by simp
qed

lemma code_at_sub_slno_code:
  assumes "is_word q" "code_at (sub_slno_code (Some q) xs)"
  shows "code_at xs"
proof -
  from code_at_words [OF assms(2)] sub_slno_code_take [OF assms(1), of 7 xs]
  have "take 7 xs = take 7 (sub_slno_code (Some q) xs)" by simp
  then show ?thesis using assms(2) code_at_take by metis
qed

lemma code_title_at_sub_slno_code:
  assumes "is_word q" "code_title_at (sub_slno_code (Some q) xs)"
  shows "code_title_at xs"
proof -
  from code_title_at_words [OF assms(2)] sub_slno_code_take [OF assms(1), of 8 xs]
  have "take 8 xs = take 8 (sub_slno_code (Some q) xs)" by simp
  then show ?thesis using assms(2) code_title_at_take by metis
qed

lemma glued_codes_at_sub_slno_code:
  assumes "glued_codes_at (c # sub_slno_code (Some c) cs)"
  shows "glued_codes_at (c # cs)"
proof -
  let ?X = "sub_slno_code (Some c) cs"
  from glued_codes_at_words [OF assms]
  have l: "14 \<le> length ?X" and w: "list_all is_word (take 15 (c # ?X))" by simp_all
  from w have wc: "is_word c" and wx: "list_all is_word (take 14 ?X)" by simp_all
  from sub_slno_code_take [OF wc l wx] have "take 15 (c # cs) = take 15 (c # ?X)" by simp
  then show ?thesis using assms glued_codes_at_take by metis
qed

lemma code_title_at_sub_code_title:
  "code_title_at (c # sub_code_title cs) = code_title_at (c # cs)"
proof -
  have "take 8 (c # sub_code_title cs) = take 8 (c # cs)"
    using sub_code_title_take7 [of cs] by simp
  then show ?thesis using code_title_at_take by metis
qed

lemma code_at_sub_code_title: "code_at (sub_code_title cs) = code_at cs"
  using sub_code_title_take7 [of cs] code_at_take by metis

lemma slno_code_at_Cons:
  "slno_code_at p (x # xs) =
     (word_boundary p (Some x) \<and> is_digit x
      \<and> ((xs \<noteq> [] \<and> is_digit (hd xs) \<and> code_at (tl xs)) \<or> code_at xs))"
  by (simp add: slno_code_at_def)

lemma code_at_Cons_upper: "code_at (x # xs) \<Longrightarrow> is_upper x"
  by (auto simp: code_at_decomp)

lemma not_code_at_digit: "is_digit x \<Longrightarrow> \<not> code_at (x # xs)"
  using code_at_Cons_upper digit_not_upper by blast

lemma not_code_at_blank: "\<not> code_at (CHR '' '' # xs)"
  using code_at_Cons_upper [of "CHR '' ''" xs] by auto

lemma not_code_at_2: "is_digit y \<Longrightarrow> \<not> code_at (x # y # xs)"
  by (auto simp: code_at_decomp digit_not_upper)

lemma not_code_at_3: "is_digit z \<Longrightarrow> \<not> code_at (x # y # z # xs)"
  by (auto simp: code_at_decomp digit_not_upper)

lemma not_slno_code_at_nondigit: "\<not> is_digit x \<Longrightarrow> \<not> slno_code_at p (x # xs)"
  by (simp add: slno_code_at_Cons)

lemma sub_slno_code_two:
  assumes "word_boundary p (Some c)" "is_digit c" "is_digit d"
    and "is_upper a1" "is_upper a2" "is_upper a3"
    and "is_digit d1" "is_digit d2" "is_digit d3" "is_digit d4"
  shows "sub_slno_code p (c # d # a1 # a2 # a3 # d1 # d2 # d3 # d4 # rest)
    = c # d # CHR '' '' # a1 # a2 # a3 # d1 # d2 # d3 # d4 # sub_slno_code (Some d4) rest"
  using assms by (simp add: code_at_def)

lemma sub_slno_code_one:
  assumes "word_boundary p (Some c)" "is_digit c"
    and "is_upper a1" "is_upper a2" "is_upper a3"
    and "is_digit d1" "is_digit d2" "is_digit d3" "is_digit d4"
  shows "sub_slno_code p (c # a1 # a2 # a3 # d1 # d2 # d3 # d4 # rest)
    = c # CHR '' '' # a1 # a2 # a3 # d1 # d2 # d3 # d4 # sub_slno_code (Some d4) rest"
  using assms by (simp add: code_at_def digit_not_upper)

lemma no_match_in_code:
  assumes "is_upper a1" "is_upper a2" "is_upper a3"
    and "is_digit d1" "is_digit d2" "is_digit d3" "is_digit d4"
  shows "has_slno_code p (a1 # a2 # a3 # d1 # d2 # d3 # d4 # X) = has_slno_code (Some d4) X"
  using assms
  by (simp add: not_slno_code_at_nondigit upper_not_digit slno_code_at_after_word
        upper_is_word digit_is_word)

lemma sub_slno_code_no_match: "\<not> has_slno_code p (sub_slno_code p s)"
proof (induction p s rule: sub_slno_code.induct)
  case (1 p)
  show ?case by simp
next
  case (2 p c cs)
  let ?two = "word_boundary p (Some c) \<and> is_digit c \<and> cs \<noteq> [] \<and> is_digit (hd cs)
         \<and> code_at (tl cs)"
  let ?one = "word_boundary p (Some c) \<and> is_digit c \<and> code_at cs"
  show ?case
  proof (cases ?two)
    case True
    then obtain d r where cs: "cs = d # r" and d: "is_digit d" and cr: "code_at r"
      by (cases cs) auto
    from cr obtain a1 a2 a3 d1 d2 d3 d4 rest where r: "r = a1 # a2 # a3 # d1 # d2 # d3 # d4 # rest"
      and cl: "is_upper a1" "is_upper a2" "is_upper a3"
        "is_digit d1" "is_digit d2" "is_digit d3" "is_digit d4"
      unfolding code_at_decomp by blast
    from True have b: "word_boundary p (Some c)" and c: "is_digit c" by simp_all
    have ih: "\<not> has_slno_code (Some d4) (sub_slno_code (Some d4) rest)"
      using "2.IH"(1) [OF True] by (simp add: cs r)
    have out: "sub_slno_code p (c # cs)
       = c # d # CHR '' '' # a1 # a2 # a3 # d1 # d2 # d3 # d4 # sub_slno_code (Some d4) rest"
      unfolding cs r using b c d cl by (rule sub_slno_code_two)
    show ?thesis
      unfolding out using c d cl ih
      by (simp add: no_match_in_code slno_code_at_Cons not_code_at_blank not_code_at_digit
            slno_code_at_after_word digit_is_word del: has_slno_code.simps(2)
            add: has_slno_code.simps(2) [of _ c] has_slno_code.simps(2) [of _ d]
              has_slno_code.simps(2) [of _ "CHR '' ''"])
  next
    case notTwo: False
    show ?thesis
    proof (cases ?one)
      case True
      then obtain a1 a2 a3 d1 d2 d3 d4 rest where cs: "cs = a1 # a2 # a3 # d1 # d2 # d3 # d4 # rest"
        and cl: "is_upper a1" "is_upper a2" "is_upper a3"
          "is_digit d1" "is_digit d2" "is_digit d3" "is_digit d4"
        unfolding code_at_decomp by blast
      from True have b: "word_boundary p (Some c)" and c: "is_digit c" by simp_all
      have ih: "\<not> has_slno_code (Some d4) (sub_slno_code (Some d4) rest)"
        using "2.IH"(2) [OF notTwo True] by (simp add: cs)
      have out: "sub_slno_code p (c # cs)
         = c # CHR '' '' # a1 # a2 # a3 # d1 # d2 # d3 # d4 # sub_slno_code (Some d4) rest"
        unfolding cs using b c cl by (rule sub_slno_code_one)
      show ?thesis
        unfolding out using c cl ih
        by (simp add: no_match_in_code slno_code_at_Cons not_code_at_blank
              del: has_slno_code.simps(2)
              add: has_slno_code.simps(2) [of _ c] has_slno_code.simps(2) [of _ "CHR '' ''"])
    next
      case notOne: False
      let ?X = "sub_slno_code (Some c) cs"
      have ih: "\<not> has_slno_code (Some c) ?X" using "2.IH"(3) [OF notTwo notOne] .
      have "\<not> slno_code_at p (c # cs)"
        using notTwo notOne by (auto simp: slno_code_at_Cons)
      then have out: "sub_slno_code p (c # cs) = c # ?X" by (rule sub_slno_code_unfold)
      have "\<not> slno_code_at p (c # ?X)"
      proof
        assume m: "slno_code_at p (c # ?X)"
        then have b: "word_boundary p (Some c)" and c: "is_digit c"
          and alt: "(?X \<noteq> [] \<and> is_digit (hd ?X) \<and> code_at (tl ?X)) \<or> code_at ?X"
          by (simp_all add: slno_code_at_Cons)
        have wc: "is_word c" using c by (rule digit_is_word)
        from alt show False
        proof
          assume a: "?X \<noteq> [] \<and> is_digit (hd ?X) \<and> code_at (tl ?X)"
          then obtain y ys where cs: "cs = y # ys" by (cases cs) auto
          have X: "?X = y # sub_slno_code (Some y) ys"
            unfolding cs using wc by (rule sub_slno_code_after_word)
          from a X have dy: "is_digit y" and "code_at (sub_slno_code (Some y) ys)" by simp_all
          then have "code_at ys" using code_at_sub_slno_code digit_is_word by blast
          with b c dy cs notTwo show False by simp
        next
          assume "code_at ?X"
          then have "code_at cs" using code_at_sub_slno_code wc by blast
          with b c notOne show False by simp
        qed
      qed
      with ih show ?thesis unfolding out by simp
    qed
  qed
qed

lemma not_glued_codes_at: "\<not> code_at s \<Longrightarrow> \<not> glued_codes_at s"
  by (simp add: glued_codes_at_def)

lemma not_code_title_at: "\<not> code_at s \<Longrightarrow> \<not> code_title_at s"
  by (simp add: code_title_at_def)

lemma glued_in_code:
  assumes "is_upper a1" "is_upper a2" "is_upper a3"
    and "is_digit d1" "is_digit d2" "is_digit d3" "is_digit d4"
  shows "has_glued_codes (a1 # a2 # a3 # d1 # d2 # d3 # d4 # X)
           = (code_title_at X \<or> has_glued_codes X)"
proof -
  have "code_at (a1 # a2 # a3 # d1 # d2 # d3 # d4 # X)"
    using assms by (simp add: code_at_def)
  then have "glued_codes_at (a1 # a2 # a3 # d1 # d2 # d3 # d4 # X) = code_title_at X"
    by (simp add: glued_codes_at_def)
  then show ?thesis
    using assms
    by (simp add: not_glued_codes_at not_code_at_3 not_code_at_2 not_code_at_digit)
qed

lemma code_title_in_code:
  assumes "is_upper a1" "is_upper a2" "is_upper a3"
    and "is_digit d1" "is_digit d2" "is_digit d3" "is_digit d4"
  shows "has_code_title (a1 # a2 # a3 # d1 # d2 # d3 # d4 # Y)
           = ((Y \<noteq> [] \<and> is_letter (hd Y)) \<or> has_code_title Y)"
proof -
  have "code_at (a1 # a2 # a3 # d1 # d2 # d3 # d4 # Y)"
    using assms by (simp add: code_at_def)
  then have "code_title_at (a1 # a2 # a3 # d1 # d2 # d3 # d4 # Y) = (Y \<noteq> [] \<and> is_letter (hd Y))"
    by (cases Y) (simp_all add: code_title_at_def)
  then show ?thesis
    using assms
    by (simp add: not_code_title_at not_code_at_3 not_code_at_2 not_code_at_digit)
qed

lemma sub_code_title_match:
  assumes "is_upper a1" "is_upper a2" "is_upper a3"
    and "is_digit d1" "is_digit d2" "is_digit d3" "is_digit d4" "is_letter l"
  shows "sub_code_title (a1 # a2 # a3 # d1 # d2 # d3 # d4 # l # rest)
    = a1 # a2 # a3 # d1 # d2 # d3 # d4 # CHR '' '' # l # sub_code_title rest"
  using assms by (simp add: code_at_def)

declare has_slno_code.simps(2) [simp del] has_code_title.simps(2) [simp del]
  has_glued_codes.simps(2) [simp del]

lemma sub_code_title_keeps_no_slno_code:
  "\<not> has_slno_code p t \<Longrightarrow> \<not> has_slno_code p (sub_code_title t)"
proof (induction t arbitrary: p rule: sub_code_title.induct)
  case 1
  then show ?case by simp
next
  case (2 c cs)
  show ?case
  proof (cases "code_title_at (c # cs)")
    case True
    then obtain a1 a2 a3 d1 d2 d3 d4 l rest
      where t: "c # cs = a1 # a2 # a3 # d1 # d2 # d3 # d4 # l # rest"
      and cl: "is_upper a1" "is_upper a2" "is_upper a3"
        "is_digit d1" "is_digit d2" "is_digit d3" "is_digit d4" and l: "is_letter l"
      unfolding code_title_at_decomp by blast
    from True have cond: "code_at (c # cs) \<and> 8 \<le> length (c # cs) \<and> is_letter (cs ! 6)"
      by (simp add: code_title_at_def)
    from t have rest: "drop 7 cs = rest" by auto
    from "2.prems" have "\<not> has_slno_code (Some l) rest"
      unfolding t no_match_in_code [OF cl] by (simp add: has_slno_code.simps(2))
    from "2.IH"(1) [OF cond, unfolded rest, OF this]
    have ih: "\<not> has_slno_code (Some l) (sub_code_title rest)" .
    show ?thesis
      unfolding t sub_code_title_match [OF cl l] no_match_in_code [OF cl]
      using l ih
      by (simp add: has_slno_code.simps(2) not_slno_code_at_nondigit letter_not_digit)
  next
    case False
    then have out: "sub_code_title (c # cs) = c # sub_code_title cs"
      by (rule sub_code_title_unfold)
    from False have ncond: "\<not> (code_at (c # cs) \<and> 8 \<le> length (c # cs) \<and> is_letter (cs ! 6))"
      by (simp add: code_title_at_def)
    from "2.prems" have n0: "\<not> slno_code_at p (c # cs)" and n1: "\<not> has_slno_code (Some c) cs"
      by (simp_all add: has_slno_code.simps(2))
    from "2.IH"(2) [OF ncond n1] have ih: "\<not> has_slno_code (Some c) (sub_code_title cs)" .
    have "\<not> slno_code_at p (c # sub_code_title cs)"
    proof
      assume m: "slno_code_at p (c # sub_code_title cs)"
      then have b: "word_boundary p (Some c)" and c: "is_digit c"
        and alt: "(sub_code_title cs \<noteq> [] \<and> is_digit (hd (sub_code_title cs))
                    \<and> code_at (tl (sub_code_title cs))) \<or> code_at (sub_code_title cs)"
        by (simp_all add: slno_code_at_Cons)
      from alt show False
      proof
        assume a: "sub_code_title cs \<noteq> [] \<and> is_digit (hd (sub_code_title cs))
                    \<and> code_at (tl (sub_code_title cs))"
        then obtain y ys where cs: "cs = y # ys" by (cases cs) auto
        have "hd (sub_code_title cs) = y"
          using sub_code_title_take7 [of cs] a cs
          by (metis hd_take list.sel(1) zero_less_numeral)
        with a have dy: "is_digit y" by simp
        then have "\<not> code_title_at (y # ys)"
          using not_code_title_at not_code_at_digit by blast
        then have X: "sub_code_title cs = y # sub_code_title ys"
          unfolding cs by (rule sub_code_title_unfold)
        with a have "code_at (sub_code_title ys)" by simp
        then have "code_at ys" by (simp add: code_at_sub_code_title)
        with b c dy cs n0 show False by (simp add: slno_code_at_Cons)
      next
        assume "code_at (sub_code_title cs)"
        then have "code_at cs" by (simp add: code_at_sub_code_title)
        with b c n0 show False by (simp add: slno_code_at_Cons)
      qed
    qed
    with ih show ?thesis unfolding out by (simp add: has_slno_code.simps(2))
  qed
qed

lemma sub_slno_code_glued: "has_glued_codes (sub_slno_code p s) \<Longrightarrow> has_glued_codes s"
proof (induction p s rule: sub_slno_code.induct)
  case (1 p)
  then show ?case by simp
next
  case (2 p c cs)
  let ?two = "word_boundary p (Some c) \<and> is_digit c \<and> cs \<noteq> [] \<and> is_digit (hd cs)
         \<and> code_at (tl cs)"
  let ?one = "word_boundary p (Some c) \<and> is_digit c \<and> code_at cs"
  show ?case
  proof (cases ?two)
    case True
    then obtain d r where cs: "cs = d # r" and d: "is_digit d" and cr: "code_at r"
      by (cases cs) auto
    from cr obtain a1 a2 a3 d1 d2 d3 d4 rest where r: "r = a1 # a2 # a3 # d1 # d2 # d3 # d4 # rest"
      and cl: "is_upper a1" "is_upper a2" "is_upper a3"
        "is_digit d1" "is_digit d2" "is_digit d3" "is_digit d4"
      unfolding code_at_decomp by blast
    from True have b: "word_boundary p (Some c)" and c: "is_digit c" by simp_all
    let ?X = "sub_slno_code (Some d4) rest"
    have ih: "has_glued_codes ?X \<Longrightarrow> has_glued_codes rest"
      using "2.IH"(1) [OF True] by (simp add: cs r)
    have out: "sub_slno_code p (c # cs)
       = c # d # CHR '' '' # a1 # a2 # a3 # d1 # d2 # d3 # d4 # ?X"
      unfolding cs r using b c d cl by (rule sub_slno_code_two)
    from "2.prems" have "code_title_at ?X \<or> has_glued_codes ?X"
      unfolding out has_glued_codes.simps(2) [of c] has_glued_codes.simps(2) [of d]
        has_glued_codes.simps(2) [of "CHR '' ''"] glued_in_code [OF cl]
      using c d
      by (simp add: not_glued_codes_at not_code_at_digit not_code_at_blank)
    then have "code_title_at rest \<or> has_glued_codes rest"
      using ih code_title_at_sub_slno_code [of d4 rest] cl(7) digit_is_word by blast
    then show ?thesis
      unfolding cs r has_glued_codes.simps(2) [of c] has_glued_codes.simps(2) [of d]
        glued_in_code [OF cl] by simp
  next
    case notTwo: False
    show ?thesis
    proof (cases ?one)
      case True
      then obtain a1 a2 a3 d1 d2 d3 d4 rest where cs: "cs = a1 # a2 # a3 # d1 # d2 # d3 # d4 # rest"
        and cl: "is_upper a1" "is_upper a2" "is_upper a3"
          "is_digit d1" "is_digit d2" "is_digit d3" "is_digit d4"
        unfolding code_at_decomp by blast
      from True have b: "word_boundary p (Some c)" and c: "is_digit c" by simp_all
      let ?X = "sub_slno_code (Some d4) rest"
      have ih: "has_glued_codes ?X \<Longrightarrow> has_glued_codes rest"
        using "2.IH"(2) [OF notTwo True] by (simp add: cs)
      have out: "sub_slno_code p (c # cs)
         = c # CHR '' '' # a1 # a2 # a3 # d1 # d2 # d3 # d4 # ?X"
        unfolding cs using b c cl by (rule sub_slno_code_one)
      from "2.prems" have "code_title_at ?X \<or> has_glued_codes ?X"
        unfolding out has_glued_codes.simps(2) [of c]
          has_glued_codes.simps(2) [of "CHR '' ''"] glued_in_code [OF cl]
        using c
        by (simp add: not_glued_codes_at not_code_at_digit not_code_at_blank)
      then have "code_title_at rest \<or> has_glued_codes rest"
        using ih code_title_at_sub_slno_code [of d4 rest] cl(7) digit_is_word by blast
      then show ?thesis
        unfolding cs has_glued_codes.simps(2) [of c] glued_in_code [OF cl] by simp
    next
      case notOne: False
      let ?X = "sub_slno_code (Some c) cs"
      have "\<not> slno_code_at p (c # cs)"
        using notTwo notOne by (auto simp: slno_code_at_Cons)
      then have out: "sub_slno_code p (c # cs) = c # ?X" by (rule sub_slno_code_unfold)
      from "2.prems" have "glued_codes_at (c # ?X) \<or> has_glued_codes ?X"
        unfolding out by (simp add: has_glued_codes.simps(2))
      then show ?thesis
        using glued_codes_at_sub_slno_code [of c cs] "2.IH"(3) [OF notTwo notOne]
        by (auto simp: has_glued_codes.simps(2))
    qed
  qed
qed

lemma sub_code_title_no_match:
  "\<not> has_glued_codes t \<Longrightarrow> \<not> has_code_title (sub_code_title t)"
proof (induction t rule: sub_code_title.induct)
  case 1
  then show ?case by simp
next
  case (2 c cs)
  show ?case
  proof (cases "code_title_at (c # cs)")
    case True
    then obtain a1 a2 a3 d1 d2 d3 d4 l rest
      where t: "c # cs = a1 # a2 # a3 # d1 # d2 # d3 # d4 # l # rest"
      and cl: "is_upper a1" "is_upper a2" "is_upper a3"
        "is_digit d1" "is_digit d2" "is_digit d3" "is_digit d4" and l: "is_letter l"
      unfolding code_title_at_decomp by blast
    from True have cond: "code_at (c # cs) \<and> 8 \<le> length (c # cs) \<and> is_letter (cs ! 6)"
      by (simp add: code_title_at_def)
    from t have rest: "drop 7 cs = rest" by auto
    from "2.prems" have n: "\<not> code_title_at (l # rest)" and g: "\<not> has_glued_codes rest"
      unfolding t glued_in_code [OF cl] by (simp_all add: has_glued_codes.simps(2))
    from "2.IH"(1) [OF cond, unfolded rest, OF g]
    have ih: "\<not> has_code_title (sub_code_title rest)" .
    show ?thesis
      unfolding t sub_code_title_match [OF cl l] code_title_in_code [OF cl]
      using ih n
      by (simp add: has_code_title.simps(2) not_code_title_at not_code_at_blank
            code_title_at_sub_code_title)
  next
    case False
    then have out: "sub_code_title (c # cs) = c # sub_code_title cs"
      by (rule sub_code_title_unfold)
    from False have ncond: "\<not> (code_at (c # cs) \<and> 8 \<le> length (c # cs) \<and> is_letter (cs ! 6))"
      by (simp add: code_title_at_def)
    from "2.prems" have "\<not> has_glued_codes cs" by (simp add: has_glued_codes.simps(2))
    from "2.IH"(2) [OF ncond this] False show ?thesis
      unfolding out by (simp add: has_code_title.simps(2) code_title_at_sub_code_title)
  qed
qed

text \<open>
  Claim C2 says that normalizing twice equals normalizing once, for every string. The
  second substitution consumes the letter behind a course code, and that letter can be
  the first letter of a further course code, whose own following letter is then repaired
  only by the next run.
\<close>

theorem normalize_not_idempotent_counterexample:
  "normalize_raw_text ''ABC1234DEF5678X'' = ''ABC1234 DEF5678X''
   \<and> normalize_raw_text (normalize_raw_text ''ABC1234DEF5678X'') = ''ABC1234 DEF5678 X''"
  by code_simp

text \<open>
  Claim C2, amended: normalizing twice equals normalizing once for every string that
  contains no course code directly followed by a second course code and a letter.
\<close>

theorem normalize_idempotent_without_glued_codes:
  assumes "\<not> has_glued_codes s"
  shows "normalize_raw_text (normalize_raw_text s) = normalize_raw_text s"
proof -
  let ?t = "sub_slno_code None s"
  let ?u = "sub_code_title ?t"
  have "\<not> has_slno_code None ?t" by (rule sub_slno_code_no_match)
  then have "\<not> has_slno_code None ?u" by (rule sub_code_title_keeps_no_slno_code)
  then have 1: "sub_slno_code None ?u = ?u" by (rule no_slno_code_fixed)
  have "\<not> has_glued_codes ?t" using assms sub_slno_code_glued by blast
  then have "\<not> has_code_title ?u" by (rule sub_code_title_no_match)
  then have 2: "sub_code_title ?u = ?u" by (rule no_code_title_fixed)
  show ?thesis by (simp add: normalize_raw_text_def 1 2)
qed

theorem normalize_idempotent_without_glued_codes_witness:
  "\<not> has_glued_codes ''6HUM1021Engineering Mechanics, 12CSE1001Problem Solving''
   \<and> normalize_raw_text ''6HUM1021Engineering Mechanics, 12CSE1001Problem Solving''
       = ''6 HUM1021 Engineering Mechanics, 12 CSE1001 Problem Solving''
   \<and> normalize_raw_text ''6 HUM1021 Engineering Mechanics, 12 CSE1001 Problem Solving''
       = ''6 HUM1021 Engineering Mechanics, 12 CSE1001 Problem Solving''"
proof -
  have h: "\<not> has_glued_codes ''6HUM1021Engineering Mechanics, 12CSE1001Problem Solving''"
    by code_simp
  have n: "normalize_raw_text ''6HUM1021Engineering Mechanics, 12CSE1001Problem Solving''
       = ''6 HUM1021 Engineering Mechanics, 12 CSE1001 Problem Solving''"
    by code_simp
  from normalize_idempotent_without_glued_codes [OF h] h n show ?thesis by simp
qed


section \<open>The CSV round trip\<close>

subsection \<open>The decimal text of an integer\<close>

lemma digit_char_is_digit: "d < 10 \<Longrightarrow> is_digit (digit_char d)"
  by (simp add: is_digit_def digit_char_def code_point_def)

lemma digit_val_digit_char: "d < 10 \<Longrightarrow> digit_val (digit_char d) = d"
  by (simp add: digit_val_def digit_char_def code_point_def)

lemma str_nat_digits: "list_all is_digit (str_nat n)"
proof (induction n rule: str_nat.induct)
  case (1 n)
  show ?case
  proof (cases "n < 10")
    case True
    then show ?thesis by (subst str_nat.simps) (simp add: digit_char_is_digit)
  next
    case False
    with 1 show ?thesis by (subst str_nat.simps) (simp add: digit_char_is_digit)
  qed
qed

lemma str_nat_nonempty: "str_nat n \<noteq> []"
  by (subst str_nat.simps) simp

lemma nat_of_digits_snoc: "nat_of_digits (ds @ [c]) = 10 * nat_of_digits ds + digit_val c"
  by (simp add: nat_of_digits_def)

lemma nat_of_digits_str_nat: "nat_of_digits (str_nat n) = n"
proof (induction n rule: str_nat.induct)
  case (1 n)
  show ?case
  proof (cases "n < 10")
    case True
    then show ?thesis
      by (subst str_nat.simps) (simp add: nat_of_digits_def digit_val_digit_char)
  next
    case False
    with 1 show ?thesis
      by (subst str_nat.simps) (simp add: nat_of_digits_snoc digit_val_digit_char)
  qed
qed

lemma length_str_nat: "n < 10 ^ k \<Longrightarrow> 0 < k \<Longrightarrow> length (str_nat n) \<le> k"
proof (induction n arbitrary: k rule: str_nat.induct)
  case (1 n)
  show ?case
  proof (cases "n < 10")
    case True
    then show ?thesis using "1.prems" by (subst str_nat.simps) simp
  next
    case False
    obtain j where k: "k = Suc j" using "1.prems"(2) by (cases k) auto
    have "0 < j" using False "1.prems"(1) k by (cases j) auto
    moreover have "n div 10 < 10 ^ j" using "1.prems"(1) k by (simp add: less_mult_imp_div_less mult.commute)
    ultimately have "length (str_nat (n div 10)) \<le> j" using "1.IH" [OF False] by simp
    then show ?thesis using False k by (subst str_nat.simps) simp
  qed
qed

lemma strip_with_id:
  "s = [] \<or> (\<not> P (hd s) \<and> \<not> P (last s)) \<Longrightarrow> rev (dropWhile P (rev (dropWhile P s))) = s"
proof (cases s)
  case Nil
  then show ?thesis by simp
next
  case (Cons c cs)
  assume "s = [] \<or> (\<not> P (hd s) \<and> \<not> P (last s))"
  with Cons have h: "\<not> P c" and l: "\<not> P (last s)" by simp_all
  from h Cons have 1: "dropWhile P s = s" by simp
  have "rev s \<noteq> []" using Cons by simp
  then obtain y ys where r: "rev s = y # ys" by (cases "rev s") auto
  have "hd (rev s) = last s" using Cons by (simp add: hd_rev)
  with r l have "\<not> P y" by simp
  with r have "dropWhile P (rev s) = rev s" by simp
  with 1 show ?thesis by simp
qed

lemma digit_not_numeric_space: "is_digit c \<Longrightarrow> \<not> is_numeric_space c"
  by (auto simp: is_digit_def is_numeric_space_def Let_def)

lemma digit_not_underscore: "is_digit c \<Longrightarrow> c \<noteq> CHR ''_''"
  by (auto simp: is_digit_def code_point_def)

lemma digit_not_sign: "is_digit c \<Longrightarrow> c \<noteq> CHR ''-'' \<and> c \<noteq> CHR ''+''"
  by (auto simp: is_digit_def code_point_def)

lemma digit_not_CR: "is_digit c \<Longrightarrow> c \<noteq> CHR 0x0D"
  by (auto simp: is_digit_def code_point_def)

lemma underscores_ok_digits:
  "list_all is_digit ds \<Longrightarrow> p \<noteq> CHR ''_'' \<Longrightarrow> underscores_ok p ds"
  by (induction ds arbitrary: p) (auto simp: digit_not_underscore)

lemma drop_underscores_digits: "list_all is_digit ds \<Longrightarrow> drop_underscores ds = ds"
  by (induction ds) (auto simp: drop_underscores_def digit_not_underscore)

lemma py_int_digits:
  assumes "list_all is_digit ds" "ds \<noteq> []" "length ds \<le> int_max_str_digits"
  shows "py_int ds = Some (int (nat_of_digits ds))"
    and "py_int (CHR ''-'' # ds) = Some (- int (nat_of_digits ds))"
proof -
  from assms(2) have "hd ds \<in> set ds" "last ds \<in> set ds" by simp_all
  with assms(1) have hd: "is_digit (hd ds)" and la: "is_digit (last ds)"
    by (simp_all add: list_all_iff)
  have s1: "numeric_strip ds = ds"
    unfolding numeric_strip_def using hd la
    by (intro strip_with_id) (simp add: digit_not_numeric_space)
  have l2: "last (CHR ''-'' # ds) = last ds" using assms(2) by simp
  have m: "\<not> is_numeric_space (CHR ''-'')"
    by (simp add: is_numeric_space_def code_point_def)
  have "\<not> is_numeric_space (hd (CHR ''-'' # ds)) \<and> \<not> is_numeric_space (last (CHR ''-'' # ds))"
    unfolding l2 using la m by (simp add: digit_not_numeric_space)
  then have s2: "numeric_strip (CHR ''-'' # ds) = CHR ''-'' # ds"
    unfolding numeric_strip_def by (intro strip_with_id disjI2)
  have sg: "split_sign ds = (False, ds)"
    using hd assms(2) by (cases ds) (auto simp: split_sign_def digit_not_sign)
  have u: "underscores_ok (CHR 0x00) ds" using assms(1) by (intro underscores_ok_digits) simp_all
  have d: "drop_underscores ds = ds" using assms(1) by (rule drop_underscores_digits)
  show "py_int ds = Some (int (nat_of_digits ds))"
    using assms by (simp add: py_int_def s1 sg u d)
  show "py_int (CHR ''-'' # ds) = Some (- int (nat_of_digits ds))"
    using assms by (simp add: py_int_def s2 split_sign_def u d)
qed

lemma py_int_str_int:
  assumes "\<bar>n\<bar> < 10 ^ int_max_str_digits"
  shows "py_int (str_int n) = Some n"
proof -
  have pos: "0 < int_max_str_digits" by (simp add: int_max_str_digits_def)
  have "nat \<bar>n\<bar> < 10 ^ int_max_str_digits"
  proof -
    have "int (nat \<bar>n\<bar>) < int (10 ^ int_max_str_digits)" using assms by simp
    then show ?thesis by (simp only: of_nat_less_iff)
  qed
  then have len: "length (str_nat (nat \<bar>n\<bar>)) \<le> int_max_str_digits"
    using pos by (rule length_str_nat)
  note d = str_nat_digits [of "nat \<bar>n\<bar>"] str_nat_nonempty [of "nat \<bar>n\<bar>"]
  show ?thesis
  proof (cases "n < 0")
    case True
    then have "str_int n = CHR ''-'' # str_nat (nat \<bar>n\<bar>)" by (simp add: str_int_def)
    then show ?thesis
      using py_int_digits(2) [OF d len] True by (simp add: nat_of_digits_str_nat)
  next
    case False
    then have "str_int n = str_nat (nat \<bar>n\<bar>)" by (simp add: str_int_def)
    then show ?thesis
      using py_int_digits(1) [OF d len] False by (simp add: nat_of_digits_str_nat)
  qed
qed

lemma str_int_chars: "c \<in> set (str_int n) \<Longrightarrow> is_digit c \<or> c = CHR ''-''"
  using str_nat_digits by (auto simp: str_int_def list_all_iff split: if_splits)

lemma str_int_nonempty: "str_int n \<noteq> []"
  by (simp add: str_int_def str_nat_nonempty)

lemma digit_not_space': "is_digit c \<or> c = CHR ''-'' \<Longrightarrow> \<not> is_space c"
  by (auto simp: is_digit_def is_space_def code_point_def Let_def)

lemma strip_str_int: "strip (str_int n) = str_int n"
proof -
  have "hd (str_int n) \<in> set (str_int n)" "last (str_int n) \<in> set (str_int n)"
    using str_int_nonempty by simp_all
  then have "\<not> is_space (hd (str_int n)) \<and> \<not> is_space (last (str_int n))"
    using str_int_chars digit_not_space' by blast
  then show ?thesis unfolding strip_def by (intro strip_with_id) simp
qed

lemma length_str_int:
  assumes "\<bar>n\<bar> < 10 ^ int_max_str_digits"
  shows "length (str_int n) \<le> field_limit"
proof -
  have pos: "0 < int_max_str_digits" by (simp add: int_max_str_digits_def)
  have "nat \<bar>n\<bar> < 10 ^ int_max_str_digits"
  proof -
    have "int (nat \<bar>n\<bar>) < int (10 ^ int_max_str_digits)" using assms by simp
    then show ?thesis by (simp only: of_nat_less_iff)
  qed
  then have "length (str_nat (nat \<bar>n\<bar>)) \<le> int_max_str_digits"
    using pos by (rule length_str_nat)
  moreover have "length (str_int n) \<le> Suc (length (str_nat (nat \<bar>n\<bar>)))"
    by (cases "n < 0") (simp_all add: str_int_def)
  ultimately show ?thesis by (simp add: int_max_str_digits_def field_limit_def)
qed

lemma field_ok_str_int:
  "\<bar>n\<bar> < 10 ^ int_max_str_digits \<Longrightarrow> field_ok (str_int n)"
  unfolding field_ok_def
  using strip_str_int length_str_int str_int_chars [of "CHR 0x0D" n] digit_not_CR by auto

subsection \<open>The reader on the text of the writer\<close>

lemma text_lines_nonempty: "cs \<noteq> [] \<Longrightarrow> text_lines cs \<noteq> []"
  by (cases cs) (auto split: list.splits)

lemma text_lines_eq_Nil: "text_lines cs = [] \<longleftrightarrow> cs = []"
  by (cases cs) (auto split: list.splits)

lemma text_lines_append:
  "text_lines (a @ CHR 0x0A # b) = text_lines (a @ [CHR 0x0A]) @ text_lines b"
  by (induction a) (auto simp: text_lines_eq_Nil split: list.splits)

lemma csv_rows_char:
  assumes "c \<noteq> CHR 0x0A" "cs \<noteq> []" "parse_process_char r (Some c) = Inr r'"
  shows "csv_rows r (text_lines (c # cs) @ later) = csv_rows r' (text_lines cs @ later)"
proof -
  from text_lines_nonempty [OF assms(2)] obtain l ls where t: "text_lines cs = l # ls"
    by (cases "text_lines cs") auto
  have "feed_line r (c # l) = feed_line r' l" using assms(3) by (simp add: feed_line_def)
  then show ?thesis using assms(1) by (simp add: t)
qed

lemma csv_rows_newline_inside:
  assumes "parse_process_char r (Some (CHR 0x0A)) = Inr r'" "parse_process_char r' None = Inr r''"
    and "state r'' \<noteq> START_RECORD"
  shows "csv_rows r (text_lines (CHR 0x0A # cs) @ later) = csv_rows r'' (text_lines cs @ later)"
  using assms by (simp add: feed_line_def)

lemma csv_rows_newline_end:
  assumes "parse_process_char r (Some (CHR 0x0A)) = Inr r'" "parse_process_char r' None = Inr r''"
    and "state r'' = START_RECORD"
  shows "csv_rows r (text_lines [CHR 0x0A] @ later) = Inr (row_fields r'') # csv_rows parse_reset later"
  using assms by (simp add: feed_line_def)

lemma needs_quote_iff:
  "needs_quote f \<longleftrightarrow> (\<exists>c\<in>set f. c = CHR '','' \<or> c = CHR 0x22 \<or> c = CHR 0x0D \<or> c = CHR 0x0A)"
  by (simp add: needs_quote_def list_ex_iff)

lemma unquoted_body:
  assumes "\<not> needs_quote f" "length (acc @ f) \<le> field_limit" "T \<noteq> []"
  shows "csv_rows \<lparr> state = IN_FIELD, field = acc, row_fields = d \<rparr> (text_lines (f @ T) @ later)
       = csv_rows \<lparr> state = IN_FIELD, field = acc @ f, row_fields = d \<rparr> (text_lines T @ later)"
  using assms
proof (induction f arbitrary: acc)
  case Nil
  then show ?case by simp
next
  case (Cons c f)
  from Cons.prems(1) have c: "c \<noteq> CHR '',''" "c \<noteq> CHR 0x22" "c \<noteq> CHR 0x0D" "c \<noteq> CHR 0x0A"
    and nf: "\<not> needs_quote f"
    by (auto simp: needs_quote_iff)
  from Cons.prems(2) have l: "length acc < field_limit" "length ((acc @ [c]) @ f) \<le> field_limit"
    by simp_all
  have step: "parse_process_char \<lparr> state = IN_FIELD, field = acc, row_fields = d \<rparr> (Some c)
      = Inr \<lparr> state = IN_FIELD, field = acc @ [c], row_fields = d \<rparr>"
    using c l(1) by (simp add: is_newline_def parse_add_char_def)
  have ne: "f @ T \<noteq> []" using Cons.prems(3) by simp
  have "csv_rows \<lparr> state = IN_FIELD, field = acc, row_fields = d \<rparr> (text_lines (c # f @ T) @ later)
      = csv_rows \<lparr> state = IN_FIELD, field = acc @ [c], row_fields = d \<rparr> (text_lines (f @ T) @ later)"
    using c(4) ne step by (rule csv_rows_char)
  also have "\<dots> = csv_rows \<lparr> state = IN_FIELD, field = (acc @ [c]) @ f, row_fields = d \<rparr>
      (text_lines T @ later)"
    using nf l(2) Cons.prems(3) by (rule Cons.IH)
  finally show ?case by simp
qed

lemma unquoted_field:
  assumes "\<not> needs_quote f" "f \<noteq> []" "length f \<le> field_limit" "T \<noteq> []"
  shows "csv_rows \<lparr> state = START_FIELD, field = [], row_fields = d \<rparr> (text_lines (f @ T) @ later)
       = csv_rows \<lparr> state = IN_FIELD, field = f, row_fields = d \<rparr> (text_lines T @ later)"
proof -
  from assms(2) obtain c f' where f: "f = c # f'" by (cases f) auto
  from assms(1) f have c: "c \<noteq> CHR '',''" "c \<noteq> CHR 0x22" "c \<noteq> CHR 0x0D" "c \<noteq> CHR 0x0A"
    and nf: "\<not> needs_quote f'"
    by (auto simp: needs_quote_iff)
  have step: "parse_process_char \<lparr> state = START_FIELD, field = [], row_fields = d \<rparr> (Some c)
      = Inr \<lparr> state = IN_FIELD, field = [c], row_fields = d \<rparr>"
    using c by (simp add: is_newline_def parse_add_char_def field_limit_def)
  have ne: "f' @ T \<noteq> []" using assms(4) by simp
  have "csv_rows \<lparr> state = START_FIELD, field = [], row_fields = d \<rparr> (text_lines (c # f' @ T) @ later)
      = csv_rows \<lparr> state = IN_FIELD, field = [c], row_fields = d \<rparr> (text_lines (f' @ T) @ later)"
    using c(4) ne step by (rule csv_rows_char)
  also have "\<dots> = csv_rows \<lparr> state = IN_FIELD, field = [c] @ f', row_fields = d \<rparr>
      (text_lines T @ later)"
    using nf assms(3,4) f by (intro unquoted_body) simp_all
  finally show ?thesis by (simp add: f)
qed

lemma quoted_body:
  assumes "length (acc @ f) \<le> field_limit" "T \<noteq> []"
  shows "csv_rows \<lparr> state = IN_QUOTED_FIELD, field = acc, row_fields = d \<rparr>
           (text_lines (escape_quotes f @ CHR 0x22 # T) @ later)
       = csv_rows \<lparr> state = QUOTE_IN_QUOTED_FIELD, field = acc @ f, row_fields = d \<rparr>
           (text_lines T @ later)"
  using assms
proof (induction f arbitrary: acc)
  case Nil
  have "parse_process_char \<lparr> state = IN_QUOTED_FIELD, field = acc, row_fields = d \<rparr> (Some (CHR 0x22))
      = Inr \<lparr> state = QUOTE_IN_QUOTED_FIELD, field = acc, row_fields = d \<rparr>"
    by simp
  from csv_rows_char [OF _ Nil.prems(2) this] show ?case by (simp add: escape_quotes_def)
next
  case (Cons c f)
  from Cons.prems(1) have l: "length acc < field_limit" "length ((acc @ [c]) @ f) \<le> field_limit"
    by simp_all
  let ?rest = "escape_quotes f @ CHR 0x22 # T"
  have ne: "?rest \<noteq> []" by simp
  have ih: "csv_rows \<lparr> state = IN_QUOTED_FIELD, field = acc @ [c], row_fields = d \<rparr>
           (text_lines ?rest @ later)
       = csv_rows \<lparr> state = QUOTE_IN_QUOTED_FIELD, field = acc @ c # f, row_fields = d \<rparr>
           (text_lines T @ later)"
    using Cons.IH [OF l(2) Cons.prems(2)] by simp
  show ?case
  proof (cases "c = CHR 0x22")
    case True
    have s1: "parse_process_char \<lparr> state = IN_QUOTED_FIELD, field = acc, row_fields = d \<rparr> (Some c)
      = Inr \<lparr> state = QUOTE_IN_QUOTED_FIELD, field = acc, row_fields = d \<rparr>"
      using True by simp
    have s2: "parse_process_char \<lparr> state = QUOTE_IN_QUOTED_FIELD, field = acc, row_fields = d \<rparr> (Some c)
      = Inr \<lparr> state = IN_QUOTED_FIELD, field = acc @ [c], row_fields = d \<rparr>"
      using True l(1) by (simp add: parse_add_char_def)
    have nl: "c \<noteq> CHR 0x0A" using True by simp
    have "escape_quotes (c # f) @ CHR 0x22 # T = c # c # ?rest"
      using True by (simp add: escape_quotes_def)
    moreover have "csv_rows \<lparr> state = IN_QUOTED_FIELD, field = acc, row_fields = d \<rparr>
           (text_lines (c # c # ?rest) @ later)
       = csv_rows \<lparr> state = QUOTE_IN_QUOTED_FIELD, field = acc, row_fields = d \<rparr>
           (text_lines (c # ?rest) @ later)"
      using nl _ s1 by (rule csv_rows_char) simp
    moreover have "csv_rows \<lparr> state = QUOTE_IN_QUOTED_FIELD, field = acc, row_fields = d \<rparr>
           (text_lines (c # ?rest) @ later)
       = csv_rows \<lparr> state = IN_QUOTED_FIELD, field = acc @ [c], row_fields = d \<rparr>
           (text_lines ?rest @ later)"
      using nl ne s2 by (rule csv_rows_char)
    ultimately show ?thesis using ih by simp
  next
    case nq: False
    have e: "escape_quotes (c # f) @ CHR 0x22 # T = c # ?rest"
      using nq by (simp add: escape_quotes_def)
    have s1: "parse_process_char \<lparr> state = IN_QUOTED_FIELD, field = acc, row_fields = d \<rparr> (Some c)
      = Inr \<lparr> state = IN_QUOTED_FIELD, field = acc @ [c], row_fields = d \<rparr>"
      using nq l(1) by (simp add: parse_add_char_def)
    show ?thesis
    proof (cases "c = CHR 0x0A")
      case True
      have s2: "parse_process_char \<lparr> state = IN_QUOTED_FIELD, field = acc @ [c], row_fields = d \<rparr> None
        = Inr \<lparr> state = IN_QUOTED_FIELD, field = acc @ [c], row_fields = d \<rparr>"
        by simp
      have "csv_rows \<lparr> state = IN_QUOTED_FIELD, field = acc, row_fields = d \<rparr>
             (text_lines (CHR 0x0A # ?rest) @ later)
         = csv_rows \<lparr> state = IN_QUOTED_FIELD, field = acc @ [c], row_fields = d \<rparr>
             (text_lines ?rest @ later)"
        using s1 [unfolded True] s2 [unfolded True] unfolding True
        by (rule csv_rows_newline_inside) simp
      then show ?thesis using ih e True by simp
    next
      case False
      have "csv_rows \<lparr> state = IN_QUOTED_FIELD, field = acc, row_fields = d \<rparr>
             (text_lines (c # ?rest) @ later)
         = csv_rows \<lparr> state = IN_QUOTED_FIELD, field = acc @ [c], row_fields = d \<rparr>
             (text_lines ?rest @ later)"
        using False ne s1 by (rule csv_rows_char)
      then show ?thesis using ih e by simp
    qed
  qed
qed

lemma quote_field_escape: "quote_field f = CHR 0x22 # escape_quotes f @ [CHR 0x22]"
  by (simp add: quote_field_def)

lemma quoted_field:
  assumes "length f \<le> field_limit" "T \<noteq> []"
  shows "csv_rows \<lparr> state = START_FIELD, field = [], row_fields = d \<rparr>
           (text_lines (quote_field f @ T) @ later)
       = csv_rows \<lparr> state = QUOTE_IN_QUOTED_FIELD, field = f, row_fields = d \<rparr>
           (text_lines T @ later)"
proof -
  have s: "parse_process_char \<lparr> state = START_FIELD, field = [], row_fields = d \<rparr> (Some (CHR 0x22))
      = Inr \<lparr> state = IN_QUOTED_FIELD, field = [], row_fields = d \<rparr>"
    by (simp add: is_newline_def)
  have "csv_rows \<lparr> state = START_FIELD, field = [], row_fields = d \<rparr>
           (text_lines (CHR 0x22 # escape_quotes f @ CHR 0x22 # T) @ later)
      = csv_rows \<lparr> state = IN_QUOTED_FIELD, field = [], row_fields = d \<rparr>
           (text_lines (escape_quotes f @ CHR 0x22 # T) @ later)"
    using _ _ s by (rule csv_rows_char) simp_all
  also have "\<dots> = csv_rows \<lparr> state = QUOTE_IN_QUOTED_FIELD, field = [] @ f, row_fields = d \<rparr>
           (text_lines T @ later)"
    using assms by (intro quoted_body) simp_all
  finally show ?thesis by (simp add: quote_field_escape)
qed

lemma written_field:
  assumes "length f \<le> field_limit" "T \<noteq> []"
  shows "\<exists>r. after_field r f d
    \<and> csv_rows \<lparr> state = START_FIELD, field = [], row_fields = d \<rparr>
          (text_lines (write_field f @ T) @ later)
       = csv_rows r (text_lines T @ later)"
proof (cases "needs_quote f")
  case True
  then show ?thesis
    using quoted_field [OF assms, of d later] by (auto simp: write_field_def after_field_def)
next
  case nq: False
  show ?thesis
  proof (cases "f = []")
    case True
    then show ?thesis using nq by (auto simp: write_field_def after_field_def)
  next
    case False
    then show ?thesis
      using unquoted_field [OF nq False assms, of d later] nq
      by (auto simp: write_field_def after_field_def)
  qed
qed

lemma after_field_comma:
  assumes "after_field r f d" "T \<noteq> []"
  shows "csv_rows r (text_lines (CHR '','' # T) @ later)
       = csv_rows \<lparr> state = START_FIELD, field = [], row_fields = d @ [f] \<rparr>
           (text_lines T @ later)"
proof -
  have "parse_process_char r (Some (CHR '',''))
      = Inr \<lparr> state = START_FIELD, field = [], row_fields = d @ [f] \<rparr>"
    using assms(1) by (auto simp: after_field_def is_newline_def parse_save_field_def)
  from csv_rows_char [OF _ assms(2) this] show ?thesis by simp
qed

lemma after_field_newline:
  assumes "after_field r f d"
  shows "csv_rows r (text_lines [CHR 0x0A] @ later) = Inr (d @ [f]) # csv_rows parse_reset later"
proof -
  let ?r' = "\<lparr> state = EAT_CRNL, field = [], row_fields = d @ [f] \<rparr>"
  let ?r'' = "\<lparr> state = START_RECORD, field = [], row_fields = d @ [f] \<rparr>"
  have 1: "parse_process_char r (Some (CHR 0x0A)) = Inr ?r'"
    using assms
    by (auto simp: after_field_def is_newline_def parse_save_field_def end_of_line_def)
  have 2: "parse_process_char ?r' None = Inr ?r''" by simp
  from csv_rows_newline_end [OF 1 2] show ?thesis by simp
qed

lemma written_fields:
  assumes "fs \<noteq> []" "\<forall>f\<in>set fs. length f \<le> field_limit"
  shows "csv_rows \<lparr> state = START_FIELD, field = [], row_fields = d \<rparr>
          (text_lines (row_line fs @ [CHR 0x0A]) @ later)
       = Inr (d @ fs) # csv_rows parse_reset later"
  using assms
proof (induction fs arbitrary: d rule: induct_list012)
  case 1
  then show ?case by simp
next
  case (2 f)
  have lf: "length f \<le> field_limit" using "2.prems" by simp
  from written_field [OF lf, of "[CHR 0x0A]" d later] obtain r where
    r: "after_field r f d" and
    e: "csv_rows \<lparr> state = START_FIELD, field = [], row_fields = d \<rparr>
          (text_lines (write_field f @ [CHR 0x0A]) @ later)
       = csv_rows r (text_lines [CHR 0x0A] @ later)"
    by blast
  show ?case using e after_field_newline [OF r, of later]
    by (simp add: row_line_def del: text_lines.simps)
next
  case (3 f g gs)
  let ?T = "row_line (g # gs) @ [CHR 0x0A]"
  have ne: "?T \<noteq> []" by simp
  have ne2: "CHR '','' # ?T \<noteq> []" by simp
  have lf: "length f \<le> field_limit" using "3.prems" by simp
  from written_field [OF lf ne2, of d later] obtain r where
    r: "after_field r f d" and
    e: "csv_rows \<lparr> state = START_FIELD, field = [], row_fields = d \<rparr>
          (text_lines (write_field f @ CHR '','' # ?T) @ later)
       = csv_rows r (text_lines (CHR '','' # ?T) @ later)"
    by blast
  have "row_line (f # g # gs) @ [CHR 0x0A] = write_field f @ CHR '','' # ?T"
    by (simp add: row_line_def)
  moreover have "csv_rows \<lparr> state = START_FIELD, field = [], row_fields = d @ [f] \<rparr>
          (text_lines ?T @ later) = Inr ((d @ [f]) @ g # gs) # csv_rows parse_reset later"
    using "3.prems" by (intro "3.IH"(2)) simp_all
  ultimately show ?case using e after_field_comma [OF r ne, of later]
    by (simp del: text_lines.simps)
qed

lemma row_line_head:
  assumes "2 \<le> length fs" "\<forall>f\<in>set fs. CHR 0x0D \<notin> set f"
  shows "\<exists>c cs. row_line fs @ [CHR 0x0A] = c # cs \<and> \<not> is_newline c"
proof -
  from assms(1) obtain f g gs where fs: "fs = f # g # gs"
    by (cases fs; cases "tl fs") auto
  have rl: "row_line fs = write_field f @ CHR '','' # row_line (g # gs)"
    by (simp add: fs row_line_def)
  show ?thesis
  proof (cases "needs_quote f")
    case True
    then show ?thesis by (simp add: rl write_field_def quote_field_def is_newline_def)
  next
    case False
    then show ?thesis
      by (cases f) (auto simp: rl write_field_def is_newline_def needs_quote_iff)
  qed
qed

lemma csv_rows_start:
  assumes "\<not> is_newline c"
  shows "csv_rows parse_reset (text_lines (c # cs) @ later)
       = csv_rows \<lparr> state = START_FIELD, field = [], row_fields = [] \<rparr>
           (text_lines (c # cs) @ later)"
proof -
  from assms have nl: "c \<noteq> CHR 0x0A" by (auto simp: is_newline_def)
  obtain l ls where t: "text_lines (c # cs) = (c # l) # ls"
    using nl by (cases "text_lines cs") auto
  have "parse_process_char parse_reset (Some c)
      = parse_process_char \<lparr> state = START_FIELD, field = [], row_fields = [] \<rparr> (Some c)"
    using assms by (simp add: parse_reset_def)
  then have "feed_line parse_reset (c # l)
      = feed_line \<lparr> state = START_FIELD, field = [], row_fields = [] \<rparr> (c # l)"
    by (simp add: feed_line_def)
  then show ?thesis unfolding t by simp
qed

lemma written_row:
  assumes "2 \<le> length fs" "\<forall>f\<in>set fs. CHR 0x0D \<notin> set f \<and> length f \<le> field_limit"
  shows "csv_rows parse_reset (text_lines (row_line fs @ [CHR 0x0A]) @ later)
       = Inr fs # csv_rows parse_reset later"
proof -
  from row_line_head [OF assms(1)] assms(2) obtain c cs where
    h: "row_line fs @ [CHR 0x0A] = c # cs" and c: "\<not> is_newline c" by blast
  have ne: "fs \<noteq> []" using assms(1) by auto
  have "csv_rows parse_reset (text_lines (row_line fs @ [CHR 0x0A]) @ later)
      = csv_rows \<lparr> state = START_FIELD, field = [], row_fields = [] \<rparr>
          (text_lines (row_line fs @ [CHR 0x0A]) @ later)"
    unfolding h using c by (rule csv_rows_start)
  also have "\<dots> = Inr ([] @ fs) # csv_rows parse_reset later"
    using ne assms(2) by (intro written_fields) simp_all
  finally show ?thesis by (simp del: text_lines.simps)
qed

lemma written_rows:
  assumes "\<forall>fs\<in>set rows. 2 \<le> length fs \<and> (\<forall>f\<in>set fs. CHR 0x0D \<notin> set f \<and> length f \<le> field_limit)"
  shows "csv_rows parse_reset (concat (map (\<lambda>fs. text_lines (row_line fs @ [CHR 0x0A])) rows))
       = map Inr rows"
  using assms
proof (induction rows)
  case Nil
  show ?case by (simp add: parse_reset_def)
next
  case (Cons fs rows)
  then show ?case using written_row [of fs] by (simp del: text_lines.simps)
qed

lemma universal_newlines_no_cr:
  "CHR 0x0D \<notin> set xs \<Longrightarrow> universal_newlines (xs @ ys) = xs @ universal_newlines ys"
  by (induction xs) auto

lemma set_escape_quotes: "set (escape_quotes f) = set f"
  by (induction f) (auto simp: escape_quotes_def)

lemma set_write_field: "set (write_field f) \<subseteq> insert (CHR 0x22) (set f)"
  by (auto simp: write_field_def quote_field_def set_escape_quotes)

lemma set_join_with: "set (join_with sep xs) \<subseteq> set sep \<union> \<Union> (set ` set xs)"
  by (induction sep xs rule: join_with.induct) auto

lemma row_line_no_cr:
  assumes "\<forall>f\<in>set fs. CHR 0x0D \<notin> set f"
  shows "CHR 0x0D \<notin> set (row_line fs)"
proof
  assume "CHR 0x0D \<in> set (row_line fs)"
  then have "CHR 0x0D \<in> set '','' \<union> \<Union> (set ` set (map write_field fs))"
    using set_join_with unfolding row_line_def by blast
  then obtain f where "f \<in> set fs" "CHR 0x0D \<in> set (write_field f)" by auto
  then have "CHR 0x0D \<in> set f" using set_write_field [of f] by auto
  with assms \<open>f \<in> set fs\<close> show False by blast
qed

lemma writerow_row_line: "2 \<le> length fs \<Longrightarrow> writerow fs = row_line fs @ [CHR 0x0D, CHR 0x0A]"
  by (auto simp: writerow_def row_line_def)

lemma universal_newlines_rows:
  assumes "\<forall>fs\<in>set rows. row_ok fs"
  shows "universal_newlines (concat (map writerow rows))
       = concat (map (\<lambda>fs. row_line fs @ [CHR 0x0A]) rows)"
  using assms
proof (induction rows)
  case Nil
  show ?case by simp
next
  case (Cons fs rows)
  then have ok: "row_ok fs" and ih: "universal_newlines (concat (map writerow rows))
       = concat (map (\<lambda>fs. row_line fs @ [CHR 0x0A]) rows)" by simp_all
  from ok have w: "writerow fs = row_line fs @ [CHR 0x0D, CHR 0x0A]"
    and nc: "CHR 0x0D \<notin> set (row_line fs)"
    by (simp_all add: row_ok_def writerow_row_line row_line_no_cr)
  have "universal_newlines (row_line fs @ (CHR 0x0D # CHR 0x0A # concat (map writerow rows)))
      = row_line fs @ universal_newlines (CHR 0x0D # CHR 0x0A # concat (map writerow rows))"
    using nc by (rule universal_newlines_no_cr)
  then show ?case by (simp add: w ih)
qed

lemma text_lines_rows:
  "text_lines (concat (map (\<lambda>fs. row_line fs @ [CHR 0x0A]) rows))
     = concat (map (\<lambda>fs. text_lines (row_line fs @ [CHR 0x0A])) rows)"
proof (induction rows)
  case Nil
  show ?case by simp
next
  case (Cons fs rows)
  have "text_lines (row_line fs @ CHR 0x0A # concat (map (\<lambda>fs. row_line fs @ [CHR 0x0A]) rows))
      = text_lines (row_line fs @ [CHR 0x0A])
        @ text_lines (concat (map (\<lambda>fs. row_line fs @ [CHR 0x0A]) rows))"
    by (rule text_lines_append)
  then show ?case using Cons by (simp del: text_lines.simps)
qed

lemma read_written_rows:
  assumes "\<forall>fs\<in>set rows. row_ok fs"
  shows "csv_rows parse_reset (text_lines (universal_newlines (concat (map writerow rows))))
       = map Inr rows"
proof -
  have "\<forall>fs\<in>set rows. 2 \<le> length fs
      \<and> (\<forall>f\<in>set fs. CHR 0x0D \<notin> set f \<and> length f \<le> field_limit)"
    using assms by (simp add: row_ok_def)
  from written_rows [OF this] show ?thesis
    by (simp only: universal_newlines_rows [OF assms] text_lines_rows)
qed

lemma dict_rows_written:
  "\<forall>fs\<in>set rows. fs \<noteq> [] \<Longrightarrow>
   dict_rows fieldnames (map Inr rows) = map (\<lambda>fs. Inr (make_row fieldnames fs)) rows"
  by (induction rows) simp_all

lemma dict_reader_written:
  assumes "row_ok fieldnames" "\<forall>fs\<in>set rows. row_ok fs"
  shows "dict_reader (writerow fieldnames @ concat (map writerow rows))
       = map (\<lambda>fs. Inr (make_row fieldnames fs)) rows"
proof -
  have "\<forall>fs\<in>set (fieldnames # rows). row_ok fs" using assms by simp
  from read_written_rows [OF this]
  have "csv_rows parse_reset (text_lines (universal_newlines
          (writerow fieldnames @ concat (map writerow rows))))
      = Inr fieldnames # map Inr rows" by simp
  moreover have "\<forall>fs\<in>set rows. fs \<noteq> []" using assms(2) by (auto simp: row_ok_def)
  ultimately show ?thesis by (simp add: dict_reader_def dict_rows_written)
qed

subsection \<open>Decoding the written records\<close>

lemma make_row_record:
  "make_row header (record_texts fmt r) =
     [(Some ''Sl.No'', Str (str_int (sl_no r))),
      (Some ''Course Code'', Str (course_code r)),
      (Some ''Course Title'', Str (course_title r)),
      (Some ''Course Type'', Str (course_type r)),
      (Some ''Credits'', Str (fmt (credits r))),
      (Some ''Grade'', Str (grade r)),
      (Some ''Exam Month'', Str (exam_month r)),
      (Some ''Result Declared On'', Str (result_declared_on r)),
      (Some ''Course Option'', Str (course_option r)),
      (Some ''Course Distribution'', Str (course_distribution r))]"
  by (simp add: make_row_def header_def record_texts_def)

lemma py_float_empty: "py_float [] = None"
  by (simp add: py_float_def numeric_strip_def split_sign_def drop_underscores_def
        parse_decimal_def)

lemma decode_written_row:
  assumes "round_trip_record fmt r"
  shows "any_nonblank (make_row header (record_texts fmt r))
           (map fst (make_row header (record_texts fmt r))) = Inr True"
    and "decode_row (make_row header (record_texts fmt r)) = Some r"
proof -
  from assms have n: "\<bar>sl_no r\<bar> < 10 ^ int_max_str_digits"
    and c: "py_float (fmt (credits r)) = Some (credits r)"
    and ok: "field_ok (course_code r)" "field_ok (course_title r)" "field_ok (course_type r)"
      "field_ok (fmt (credits r))" "field_ok (grade r)" "field_ok (exam_month r)"
      "field_ok (result_declared_on r)" "field_ok (course_option r)"
      "field_ok (course_distribution r)"
    by (simp_all add: round_trip_record_def)
  from ok have st: "strip (course_code r) = course_code r"
      "strip (course_title r) = course_title r" "strip (course_type r) = course_type r"
      "strip (fmt (credits r)) = fmt (credits r)" "strip (grade r) = grade r"
      "strip (exam_month r) = exam_month r"
      "strip (result_declared_on r) = result_declared_on r"
      "strip (course_option r) = course_option r"
      "strip (course_distribution r) = course_distribution r"
    by (simp_all add: field_ok_def)
  have ne: "fmt (credits r) \<noteq> []" using c py_float_empty by auto
  note i = py_int_str_int [OF n] strip_str_int [of "sl_no r"] str_int_nonempty [of "sl_no r"]
  show "any_nonblank (make_row header (record_texts fmt r))
           (map fst (make_row header (record_texts fmt r))) = Inr True"
    by (simp add: make_row_record dict_get_def or_empty_strip_def i)
  show "decode_row (make_row header (record_texts fmt r)) = Some r"
    by (simp add: make_row_record decode_row_def get_text_def dict_get_def or_empty_strip_def
          i st c ne)
qed

lemma parse_csv_loop_written:
  assumes "\<forall>r\<in>set rs. round_trip_record fmt r"
  shows "parse_csv_loop acc (map (\<lambda>r. Inr (make_row header (record_texts fmt r))) rs)
           = Inr (acc @ rs)"
  using assms
proof (induction rs arbitrary: acc)
  case Nil
  show ?case by simp
next
  case (Cons r rs)
  then have r: "round_trip_record fmt r" and rest: "\<forall>r\<in>set rs. round_trip_record fmt r"
    by simp_all
  show ?case
    using decode_written_row [OF r] Cons.IH [OF rest, of "acc @ [r]"] by simp
qed

lemma header_ok: "row_ok header"
  by (simp add: row_ok_def header_def field_limit_def)

lemma record_texts_ok:
  assumes "round_trip_record fmt r"
  shows "row_ok (record_texts fmt r)"
proof -
  from assms have n: "\<bar>sl_no r\<bar> < 10 ^ int_max_str_digits"
    and ok: "field_ok (course_code r)" "field_ok (course_title r)" "field_ok (course_type r)"
      "field_ok (fmt (credits r))" "field_ok (grade r)" "field_ok (exam_month r)"
      "field_ok (result_declared_on r)" "field_ok (course_option r)"
      "field_ok (course_distribution r)"
    by (simp_all add: round_trip_record_def)
  from field_ok_str_int [OF n] ok show ?thesis
    by (simp add: row_ok_def record_texts_def field_ok_def)
qed

lemma decode_written_text:
  assumes "\<forall>r\<in>set rs. round_trip_record fmt r"
  shows "parse_csv (writerow header @ concat (map (\<lambda>r. writerow (record_texts fmt r)) rs))
           = Inr rs"
proof -
  have "\<forall>fs\<in>set (map (record_texts fmt) rs). row_ok fs"
    using assms record_texts_ok by auto
  from dict_reader_written [OF header_ok this]
  have "dict_reader (writerow header @ concat (map (\<lambda>r. writerow (record_texts fmt r)) rs))
      = map (\<lambda>r. Inr (make_row header (record_texts fmt r))) rs"
    by (simp add: comp_def)
  then show ?thesis using parse_csv_loop_written [OF assms, of "[]"] by (simp add: parse_csv_def)
qed

subsection \<open>Encoding the form of a record list\<close>

lemma dict_set_absent: "dict_get d k = None \<Longrightarrow> dict_set d k v = d @ [(k, v)]"
  by (induction d) (auto simp: dict_get_def split: if_splits)

lemma dict_get_last: "dict_get d k = None \<Longrightarrow> dict_get (d @ [(k, v)]) k = Some v"
  by (simp add: dict_get_def map_add_def)

lemma dict_set_last:
  "dict_get d k = None \<Longrightarrow> dict_set (d @ [(k, v)]) k v' = d @ [(k, v')]"
  by (induction d) (auto simp: dict_get_def split: if_splits)

lemma match_key_row:
  assumes "f \<noteq> []" "list_all is_field_char f"
  shows "match_key (''row-'' @ str_nat i @ ''-'' @ f) = Some (str_nat i, f)"
proof -
  have d: "drop 4 (''row-'' @ str_nat i @ ''-'' @ f) = str_nat i @ (CHR ''-'' # f)" by simp
  have t: "take 4 (''row-'' @ str_nat i @ ''-'' @ f) = ''row-''" by simp
  have nd: "\<not> is_digit (CHR ''-'')" by (simp add: is_digit_def code_point_def)
  have tw: "takeWhile is_digit (str_nat i @ (CHR ''-'' # f)) = str_nat i"
    by (rule takeWhile_run [OF str_nat_digits]) (simp add: nd)
  have dw: "dropWhile is_digit (str_nat i @ (CHR ''-'' # f)) = CHR ''-'' # f"
    by (rule dropWhile_run [OF str_nat_digits]) (simp add: nd)
  have ff: "takeWhile is_field_char f = f"
    using assms(2) by (simp add: list_all_iff)
  show ?thesis
    unfolding match_key_def t d tw dw Let_def using assms(1) by (simp add: ff str_nat_nonempty)
qed

lemma py_int_str_nat:
  assumes "i < 10 ^ int_max_str_digits"
  shows "py_int (str_nat i) = Some (int i)"
proof -
  have "0 < int_max_str_digits" by (simp add: int_max_str_digits_def)
  from length_str_nat [OF assms this]
  have "py_int (str_nat i) = Some (int (nat_of_digits (str_nat i)))"
    by (intro py_int_digits(1) str_nat_digits str_nat_nonempty)
  then show ?thesis by (simp add: nat_of_digits_str_nat)
qed

lemma collect_fields_key:
  assumes "dict_get acc idx = None" "py_int ds = Some idx"
    and "list_all (\<lambda>(f, v). match_key (key f) = Some (ds, f)) fvs"
  shows "collect_rows (acc @ [(idx, row)]) (map (\<lambda>(f, v). (key f, v)) fvs @ rest)
         = collect_rows
            (acc @ [(idx, foldl (\<lambda>row (f, v). dict_set row f (strip v)) row fvs)]) rest"
  using assms(3)
proof (induction fvs arbitrary: row)
  case Nil
  show ?case by simp
next
  case (Cons fv fvs)
  obtain f v where fv: "fv = (f, v)" by (cases fv)
  with Cons.prems have f: "match_key (key f) = Some (ds, f)"
    and rest: "list_all (\<lambda>(f, v). match_key (key f) = Some (ds, f)) fvs"
    by simp_all
  show ?case
    using Cons.IH [OF rest, of "dict_set row f (strip v)"]
    by (simp add: fv f assms(2) dict_get_last [OF assms(1)] dict_set_last [OF assms(1)])
qed

lemma collect_first_key:
  assumes "dict_get acc idx = None" "py_int ds = Some idx" "match_key k = Some (ds, f)"
  shows "collect_rows acc ((k, v) # rest) = collect_rows (acc @ [(idx, [(f, strip v)])]) rest"
  by (simp add: assms dict_set_absent [OF assms(1)])

lemma collect_fields:
  assumes "dict_get acc (int i) = None" "i < 10 ^ int_max_str_digits"
    and "list_all (\<lambda>(f, v). f \<noteq> [] \<and> list_all is_field_char f) fvs"
  shows "collect_rows (acc @ [(int i, row)])
            (map (\<lambda>(f, v). (''row-'' @ str_nat i @ ''-'' @ f, v)) fvs @ rest)
         = collect_rows
            (acc @ [(int i, foldl (\<lambda>row (f, v). dict_set row f (strip v)) row fvs)]) rest"
proof -
  have "list_all (\<lambda>(f, v). match_key (''row-'' @ str_nat i @ ''-'' @ f) = Some (str_nat i, f)) fvs"
    using assms(3) match_key_row by (auto simp: list_all_iff)
  from collect_fields_key [where key = "\<lambda>f. ''row-'' @ str_nat i @ ''-'' @ f",
      OF assms(1) py_int_str_nat [OF assms(2)] this]
  show ?thesis .
qed

lemma collect_first:
  assumes "dict_get acc (int i) = None" "i < 10 ^ int_max_str_digits"
    and "f \<noteq> []" "list_all is_field_char f"
  shows "collect_rows acc ((''row-'' @ str_nat i @ ''-'' @ f, v) # rest)
         = collect_rows (acc @ [(int i, [(f, strip v)])]) rest"
  by (rule collect_first_key [OF assms(1) py_int_str_nat [OF assms(2)]
        match_key_row [OF assms(3,4)]])

lemma field_order_chars: "list_all (\<lambda>f. f \<noteq> [] \<and> list_all is_field_char f) field_order"
  by (simp add: field_order_def is_field_char_def is_lower_def code_point_def)

lemma collect_record:
  assumes "dict_get acc (int i) = None" "i < 10 ^ int_max_str_digits"
  shows "collect_rows acc
            (map (\<lambda>(f, v). (''row-'' @ str_nat i @ ''-'' @ f, v))
                 (zip field_order (record_texts fmt r)) @ rest)
         = collect_rows
            (acc @ [(int i, zip field_order (map strip (record_texts fmt r)))]) rest"
proof -
  let ?key = "\<lambda>(f, v). (''row-'' @ str_nat i @ ''-'' @ f, v)"
  let ?tail = "zip (tl field_order) (tl (record_texts fmt r))"
  have z: "zip field_order (record_texts fmt r)
      = (''sl_no'', str_int (sl_no r)) # ?tail"
    by (simp add: field_order_def record_texts_def)
  have ok: "list_all (\<lambda>(f, v). f \<noteq> [] \<and> list_all is_field_char f) ?tail"
    by (simp add: field_order_def record_texts_def is_field_char_def is_lower_def
          code_point_def)
  have f1: "''sl_no'' \<noteq> []" "list_all is_field_char ''sl_no''"
    by (simp_all add: is_field_char_def is_lower_def code_point_def)
  have "collect_rows acc (map ?key (zip field_order (record_texts fmt r)) @ rest)
      = collect_rows acc
          ((''row-'' @ str_nat i @ ''-'' @ ''sl_no'', str_int (sl_no r)) # map ?key ?tail @ rest)"
    unfolding z by (simp only: list.map prod.case append_Cons)
  also have "\<dots> = collect_rows (acc @ [(int i, [(''sl_no'', strip (str_int (sl_no r)))])])
          (map ?key ?tail @ rest)"
    by (rule collect_first [OF assms f1])
  also have "\<dots> = collect_rows
      (acc @ [(int i, foldl (\<lambda>row (f, v). dict_set row f (strip v))
                        [(''sl_no'', strip (str_int (sl_no r)))] ?tail)]) rest"
    by (rule collect_fields [OF assms ok])
  also have "foldl (\<lambda>row (f, v). dict_set row f (strip v))
                        [(''sl_no'', strip (str_int (sl_no r)))] ?tail
      = zip field_order (map strip (record_texts fmt r))"
    by (simp add: field_order_def record_texts_def)
  finally show ?thesis .
qed

lemma collect_records:
  assumes "\<forall>k\<in>fst ` set acc. k < int n" "n + length rs \<le> 10 ^ int_max_str_digits"
  shows "collect_rows acc
           (concat (map (\<lambda>(i, r). map (\<lambda>(f, v). (''row-'' @ str_nat i @ ''-'' @ f, v))
                                      (zip field_order (record_texts fmt r)))
                        (enumerate n rs)))
         = Inr (acc @ map (\<lambda>(i, r). (int i, zip field_order (map strip (record_texts fmt r))))
                          (enumerate n rs))"
  using assms
proof (induction rs arbitrary: n acc)
  case Nil
  show ?case by simp
next
  case (Cons r rs)
  have none: "dict_get acc (int n) = None"
    using Cons.prems(1) by (force simp: dict_get_def map_of_eq_None_iff)
  have lt: "n < 10 ^ int_max_str_digits" using Cons.prems(2) by simp
  let ?acc = "acc @ [(int n, zip field_order (map strip (record_texts fmt r)))]"
  have keys: "\<forall>k\<in>fst ` set ?acc. k < int (Suc n)" using Cons.prems(1) by auto
  have len: "Suc n + length rs \<le> 10 ^ int_max_str_digits" using Cons.prems(2) by simp
  show ?case
    using collect_record [OF none lt, of fmt r] Cons.IH [OF keys len]
    by simp
qed

lemma sorted_indices: "sort (map int [0..<n]) = map int [0..<n]"
  by (rule sorted_sort_id) (simp add: sorted_map sorted_wrt_iff_nth_less)

lemma dict_get_keys:
  "distinct (map fst d) \<Longrightarrow>
   map (\<lambda>k. case dict_get d k of None \<Rightarrow> [] | Some r \<Rightarrow> r) (map fst d) = map snd d"
proof (induction d)
  case Nil
  show ?case by simp
next
  case (Cons kv d)
  obtain k v where kv: "kv = (k, v)" by (cases kv)
  from Cons.prems kv have k: "k \<notin> fst ` set d" and dist: "distinct (map fst d)" by simp_all
  have "map (\<lambda>k'. case dict_get (kv # d) k' of None \<Rightarrow> [] | Some r \<Rightarrow> r) (map fst d)
      = map (\<lambda>k'. case dict_get d k' of None \<Rightarrow> [] | Some r \<Rightarrow> r) (map fst d)"
    using k by (intro map_cong) (auto simp: dict_get_def kv)
  with Cons.IH [OF dist] show ?case by (simp add: kv dict_get_def)
qed

lemma write_record_row:
  assumes "round_trip_record fmt r"
  shows "write_form_row (zip field_order (map strip (record_texts fmt r)))
           = writerow (record_texts fmt r)"
proof -
  from assms have ok: "field_ok (course_code r)" "field_ok (course_title r)"
      "field_ok (course_type r)"
      "field_ok (fmt (credits r))" "field_ok (grade r)" "field_ok (exam_month r)"
      "field_ok (result_declared_on r)" "field_ok (course_option r)"
      "field_ok (course_distribution r)"
    by (simp_all add: round_trip_record_def)
  then have st: "map strip (record_texts fmt r) = record_texts fmt r"
    by (simp add: record_texts_def field_ok_def strip_str_int)
  show ?thesis
    unfolding st
    by (simp add: write_form_row_def field_order_def record_texts_def row_get_def dict_get_def
          str_int_nonempty)
qed

lemma encode_records:
  assumes "\<forall>r\<in>set rs. round_trip_record fmt r" "length rs \<le> 10 ^ int_max_str_digits"
  shows "encode fmt rs
           = Inr (writerow header @ concat (map (\<lambda>r. writerow (record_texts fmt r)) rs))"
proof -
  let ?frow = "\<lambda>r. zip field_order (map strip (record_texts fmt r))"
  let ?d = "map (\<lambda>(i, r). (int i, ?frow r)) (enumerate 0 rs)"
  have c: "collect_rows [] (form_of_records fmt rs) = Inr ?d"
    unfolding form_of_records_def
    using collect_records [of "[]" 0 rs fmt] assms(2) by simp
  have keys: "map fst ?d = map int [0..<length rs]"
    by (simp add: comp_def case_prod_unfold flip: map_map [of int fst, unfolded comp_def])
  have vals: "map snd ?d = map ?frow rs"
    by (simp add: comp_def case_prod_unfold flip: map_map [of ?frow snd, unfolded comp_def])
  have dist: "distinct (map fst ?d)"
    unfolding keys by (simp add: distinct_map inj_on_def)
  have "concat (map (\<lambda>idx. write_form_row (case dict_get ?d idx of None \<Rightarrow> [] | Some r \<Rightarrow> r))
                    (sort (map fst ?d)))
      = concat (map write_form_row
                  (map (\<lambda>k. case dict_get ?d k of None \<Rightarrow> [] | Some r \<Rightarrow> r) (map fst ?d)))"
    unfolding keys sorted_indices by (simp add: comp_def)
  also have "\<dots> = concat (map write_form_row (map ?frow rs))"
    unfolding dict_get_keys [OF dist] vals ..
  also have "\<dots> = concat (map (\<lambda>r. writerow (record_texts fmt r)) rs)"
    using assms(1) by (simp add: comp_def write_record_row cong: map_cong)
  finally show ?thesis
    by (simp add: encode_def download_csv_def c)
qed

lemma digit_limit_small: "n \<le> 10 \<Longrightarrow> n \<le> 10 ^ int_max_str_digits" for n :: nat
proof -
  have "(10::nat) ^ 1 \<le> 10 ^ int_max_str_digits"
    by (rule power_increasing) (simp_all add: int_max_str_digits_def)
  then show "n \<le> 10 \<Longrightarrow> n \<le> 10 ^ int_max_str_digits" by simp
qed

lemma digit_limit_small_int: "\<bar>n\<bar> < 10 \<Longrightarrow> \<bar>n\<bar> < 10 ^ int_max_str_digits" for n :: int
proof -
  have "(10::int) ^ 1 \<le> 10 ^ int_max_str_digits"
    by (rule power_increasing) (simp_all add: int_max_str_digits_def)
  then show "\<bar>n\<bar> < 10 \<Longrightarrow> \<bar>n\<bar> < 10 ^ int_max_str_digits" by simp
qed

subsection \<open>The claim about the round trip\<close>

text \<open>
  Claim C1 says that decoding the encoded text gives back every sequence of records whose
  serial numbers are integers and whose credits are numbers, the string fields being as
  given. Both directions trim the text of every field: a record whose title begins with
  a space is written without that space and comes back with the title trimmed.
\<close>

theorem round_trip_counterexample:
  "encode whole_number_text
     [\<lparr> sl_no = 1, course_code = ''CSE1001'', course_title = '' Intro'',
        course_type = ''REG'', credits = Finite 4, grade = ''A'', exam_month = ''MAY2023'',
        result_declared_on = ''JUN2023'', course_option = ''FULL'',
        course_distribution = ''DIST1'' \<rparr>]
     = Inr (''Sl.No,Course Code,Course Title,Course Type,Credits,Grade,Exam Month,''
            @ ''Result Declared On,Course Option,Course Distribution'' @ [CHR 0x0D, CHR 0x0A]
            @ ''1,CSE1001,Intro,REG,4.0,A,MAY2023,JUN2023,FULL,DIST1'' @ [CHR 0x0D, CHR 0x0A])
   \<and> decode (''Sl.No,Course Code,Course Title,Course Type,Credits,Grade,Exam Month,''
            @ ''Result Declared On,Course Option,Course Distribution'' @ [CHR 0x0D, CHR 0x0A]
            @ ''1,CSE1001,Intro,REG,4.0,A,MAY2023,JUN2023,FULL,DIST1'' @ [CHR 0x0D, CHR 0x0A])
     = Inr [\<lparr> sl_no = 1, course_code = ''CSE1001'', course_title = ''Intro'',
        course_type = ''REG'', credits = Finite 4, grade = ''A'', exam_month = ''MAY2023'',
        result_declared_on = ''JUN2023'', course_option = ''FULL'',
        course_distribution = ''DIST1'' \<rparr>]"
proof -
  have e: "encode whole_number_text
     [\<lparr> sl_no = 1, course_code = ''CSE1001'', course_title = '' Intro'',
        course_type = ''REG'', credits = Finite 4, grade = ''A'', exam_month = ''MAY2023'',
        result_declared_on = ''JUN2023'', course_option = ''FULL'',
        course_distribution = ''DIST1'' \<rparr>]
     = Inr (''Sl.No,Course Code,Course Title,Course Type,Credits,Grade,Exam Month,''
            @ ''Result Declared On,Course Option,Course Distribution'' @ [CHR 0x0D, CHR 0x0A]
            @ ''1,CSE1001,Intro,REG,4.0,A,MAY2023,JUN2023,FULL,DIST1'' @ [CHR 0x0D, CHR 0x0A])"
    by code_simp
  have d: "decode (''Sl.No,Course Code,Course Title,Course Type,Credits,Grade,Exam Month,''
            @ ''Result Declared On,Course Option,Course Distribution'' @ [CHR 0x0D, CHR 0x0A]
            @ ''1,CSE1001,Intro,REG,4.0,A,MAY2023,JUN2023,FULL,DIST1'' @ [CHR 0x0D, CHR 0x0A])
     = Inr [\<lparr> sl_no = 1, course_code = ''CSE1001'', course_title = ''Intro'',
        course_type = ''REG'', credits = Finite 4, grade = ''A'', exam_month = ''MAY2023'',
        result_declared_on = ''JUN2023'', course_option = ''FULL'',
        course_distribution = ''DIST1'' \<rparr>]"
    by (simp add: decode_def csv_eval reader_eval text_eval number_eval binary64_four)
  from e d show ?thesis by (rule conjI)
qed

text \<open>
  Claim C1, amended: for every sequence of records in which each string field is
  trimmed, holds no carriage return and is no longer than the reader's field limit, each
  serial number can be written within the digit limit of \<open>int\<close>, and the credits are a number
  other than NaN whose text in the form reads back as the same number, the encoder
  returns a text, and decoding that text gives the same records in the same order. The
  row indices of the form are read with \<open>int\<close> as well, so the sequence has at most
  \<open>10 ^ 4300\<close> records.
\<close>

theorem round_trip_of_trimmed_records:
  assumes "\<forall>r\<in>set rs. round_trip_record fmt r" and "length rs \<le> 10 ^ int_max_str_digits"
  shows "\<exists>text. encode fmt rs = Inr text \<and> decode text = Inr rs"
  using encode_records [OF assms] decode_written_text [OF assms(1)]
  by (simp add: decode_def)

theorem round_trip_of_trimmed_records_witness:
  "round_trip_record whole_number_text
      \<lparr> sl_no = 1, course_code = ''CSE1001'', course_title = ''Intro to Systems'',
        course_type = ''REG'', credits = Finite 4, grade = ''A'',
        exam_month = ''MAY2023'', result_declared_on = ''JUN2023'',
        course_option = ''FULL'', course_distribution = ''DIST1'' \<rparr>
   \<and> round_trip_record whole_number_text
      \<lparr> sl_no = 2, course_code = ''EEE2003'', course_title = ''Signals, Systems'',
        course_type = ''TH'', credits = Finite 3, grade = ''B'',
        exam_month = ''NOV2023'', result_declared_on = ''DEC2023'',
        course_option = [], course_distribution = ''DIST2'' \<rparr>
   \<and> encode whole_number_text
        [\<lparr> sl_no = 1, course_code = ''CSE1001'', course_title = ''Intro to Systems'',
           course_type = ''REG'', credits = Finite 4, grade = ''A'',
           exam_month = ''MAY2023'', result_declared_on = ''JUN2023'',
           course_option = ''FULL'', course_distribution = ''DIST1'' \<rparr>,
         \<lparr> sl_no = 2, course_code = ''EEE2003'', course_title = ''Signals, Systems'',
           course_type = ''TH'', credits = Finite 3, grade = ''B'',
           exam_month = ''NOV2023'', result_declared_on = ''DEC2023'',
           course_option = [], course_distribution = ''DIST2'' \<rparr>]
      = Inr (''Sl.No,Course Code,Course Title,Course Type,Credits,Grade,Exam Month,''
             @ ''Result Declared On,Course Option,Course Distribution'' @ [CHR 0x0D, CHR 0x0A]
             @ ''1,CSE1001,Intro to Systems,REG,4.0,A,MAY2023,JUN2023,FULL,DIST1''
             @ [CHR 0x0D, CHR 0x0A]
             @ ''2,EEE2003,'' @ [CHR 0x22] @ ''Signals, Systems'' @ [CHR 0x22]
             @ '',TH,3.0,B,NOV2023,DEC2023,,DIST2'' @ [CHR 0x0D, CHR 0x0A])
   \<and> decode (''Sl.No,Course Code,Course Title,Course Type,Credits,Grade,Exam Month,''
             @ ''Result Declared On,Course Option,Course Distribution'' @ [CHR 0x0D, CHR 0x0A]
             @ ''1,CSE1001,Intro to Systems,REG,4.0,A,MAY2023,JUN2023,FULL,DIST1''
             @ [CHR 0x0D, CHR 0x0A]
             @ ''2,EEE2003,'' @ [CHR 0x22] @ ''Signals, Systems'' @ [CHR 0x22]
             @ '',TH,3.0,B,NOV2023,DEC2023,,DIST2'' @ [CHR 0x0D, CHR 0x0A])
      = Inr [\<lparr> sl_no = 1, course_code = ''CSE1001'', course_title = ''Intro to Systems'',
               course_type = ''REG'', credits = Finite 4, grade = ''A'',
               exam_month = ''MAY2023'', result_declared_on = ''JUN2023'',
               course_option = ''FULL'', course_distribution = ''DIST1'' \<rparr>,
             \<lparr> sl_no = 2, course_code = ''EEE2003'', course_title = ''Signals, Systems'',
               course_type = ''TH'', credits = Finite 3, grade = ''B'',
               exam_month = ''NOV2023'', result_declared_on = ''DEC2023'',
               course_option = [], course_distribution = ''DIST2'' \<rparr>]"
proof -
  let ?r1 = "\<lparr> sl_no = 1, course_code = ''CSE1001'', course_title = ''Intro to Systems'',
               course_type = ''REG'', credits = Finite 4, grade = ''A'',
               exam_month = ''MAY2023'', result_declared_on = ''JUN2023'',
               course_option = ''FULL'', course_distribution = ''DIST1'' \<rparr>"
  let ?r2 = "\<lparr> sl_no = 2, course_code = ''EEE2003'', course_title = ''Signals, Systems'',
               course_type = ''TH'', credits = Finite 3, grade = ''B'',
               exam_month = ''NOV2023'', result_declared_on = ''DEC2023'',
               course_option = [], course_distribution = ''DIST2'' \<rparr>"
  let ?text = "''Sl.No,Course Code,Course Title,Course Type,Credits,Grade,Exam Month,''
             @ ''Result Declared On,Course Option,Course Distribution'' @ [CHR 0x0D, CHR 0x0A]
             @ ''1,CSE1001,Intro to Systems,REG,4.0,A,MAY2023,JUN2023,FULL,DIST1''
             @ [CHR 0x0D, CHR 0x0A]
             @ ''2,EEE2003,'' @ [CHR 0x22] @ ''Signals, Systems'' @ [CHR 0x22]
             @ '',TH,3.0,B,NOV2023,DEC2023,,DIST2'' @ [CHR 0x0D, CHR 0x0A]"
  have t4: "whole_number_text (Finite 4) = ''4.0''" by code_simp
  have t3: "whole_number_text (Finite 3) = ''3.0''" by code_simp
  have f4: "py_float ''4.0'' = Some (Finite 4)" by code_simp
  have f3: "py_float ''3.0'' = Some (Finite 3)" by code_simp
  have ok: "\<forall>r\<in>set [?r1, ?r2]. round_trip_record whole_number_text r"
    by (simp add: round_trip_record_def digit_limit_small_int [of 1, simplified]
          digit_limit_small_int [of 2, simplified] t4 t3 f4 f3 field_ok_def field_limit_def
          text_eval)
  have len: "length [?r1, ?r2] \<le> 10 ^ int_max_str_digits"
    by (rule digit_limit_small) simp
  have e: "encode whole_number_text [?r1, ?r2] = Inr ?text" by code_simp
  from round_trip_of_trimmed_records [OF ok len] e
  have "decode ?text = Inr [?r1, ?r2]" by auto
  moreover from ok have "round_trip_record whole_number_text ?r1"
    and "round_trip_record whole_number_text ?r2"
    by simp_all
  ultimately show ?thesis using e by blast
qed

end
